theory Spec2Isabelle
  imports Complex_Main
begin

section \<open>Data model of bot.js\<close>

text \<open>
  The bot keeps four MongoDB collections that matter for the ledger: \<open>users\<close>,
  \<open>pending\<close>, \<open>withdrawals\<close> and \<open>refs\<close>. A document is a record, a collection is
  the list of its documents in insertion order. JavaScript numbers that hold money are
  modelled as exact rationals (the rounding of IEEE doubles is left out), Telegram ids and
  millisecond timestamps as integers. A field that the code removes with \<open>$unset\<close> or sets
  to \<open>null\<close> is \<open>None\<close>; a boolean flag that is unset reads as \<open>False\<close>, which is how
  every test of the flags in the source (\<open>if (u.awaitingUpiSetup)\<close>) reads it.
  The display fields \<open>username\<close>, \<open>first_name\<close>, \<open>badges\<close> and the user's \<open>createdAt\<close>
  take no part in any ledger decision and are left out.

  A handler is one function from the store to the new store and the messages sent: each
  runs to its end before the next one starts. An update that the channel-membership guard
  (\<open>enforceChannelRequirements\<close>) stops reaches no handler and changes nothing; the
  handlers below are what runs once the guard has let the update through. The sender of
  an update is always present. A database call succeeds, except for the insert of a
  profile whose referral code is taken.
\<close>

record user =
  telegramId :: int
  referralCode :: string
  balance :: rat
  confirmedReferrals :: int
  primaryUPI :: "string option"
  needsUpiSetup :: bool
  balanceLocked :: "rat option"
  lastWithdrawAt :: "int option"
  awaitingUpiSetup :: bool
  draftUpiSetup :: "string option"
  awaitingWithdrawUPI :: bool
  awaitingWithdrawUPIConfirm :: bool
  draftWithdrawUPI :: "string option"
  awaitingSupportMessage :: bool

datatype pstatus = PPending | PConfirmed | PInvalid

datatype preason = self_referral | no_user_record | no_referrer_record

record pending =
  referredId :: int
  referrerId :: int
  usedCode :: string
  createdAt :: int
  status :: pstatus
  reason :: "preason option"
  confirmedAt :: "int option"

datatype wstatus = WPending | WPaid | WCancelled

record withdrawal =
  userId :: int
  upi :: string
  amount :: rat
  requestedAt :: int
  wstatus :: wstatus
  paidAt :: "int option"
  paidBy :: "int option"
  cancelledAt :: "int option"

record refdoc =
  refReferrerId :: int
  refReferredId :: int
  refCode :: string
  refConfirmedAt :: int

record store =
  usersCol :: "user list"
  pendingCol :: "pending list"
  withdrawalsCol :: "withdrawal list"
  refsCol :: "refdoc list"

text \<open>
  The configuration constants read from the environment at the top of bot.js, and one
  fact about the installed \<open>mongodb\<close> package, which the source does not pin (the
  \<open>require\<close> of line 4 names no version): \<open>resultMetadata\<close> says whether
  \<open>findOneAndUpdate\<close> returns the result metadata, with the document under \<open>value\<close>
  (drivers before version 6), or the document itself (version 6 and later).
\<close>

record config =
  ADMIN_IDS :: "int list"
  CONFIRM_DELAY_HOURS :: rat
  MIN_WITHDRAWAL :: rat
  REFERRAL_REWARD :: rat
  resultMetadata :: bool

text \<open>
  What a handler sends: \<open>Reply\<close> is \<open>ctx.reply\<close> (to the chat the update came from),
  \<open>Send\<close> is \<open>telegram.sendMessage\<close> to a given id. One constructor of \<open>msg\<close> per
  message text of the source, with the values the text interpolates. A send that the
  transport rejects never undoes a store update in the code (every update precedes the
  sends of its handler), so the outputs are the sends attempted.
\<close>

datatype msg =
    MsgAlreadyPending
  | MsgBelowMinimum rat rat
  | MsgAskUpi
  | MsgSavedUpi string
  | MsgUpiSetupPrompt "string option"
  | MsgYouReferred
  | MsgMainMenu
  | MsgInfo
  | MsgUpiSetupCancelled
  | MsgSendUpiFirst
  | MsgUpiSaved string
  | MsgUpiCaptured string
  | MsgUpiSetupInvalid
  | MsgWithdrawCancelled
  | MsgSendUpiBeforeConfirm
  | MsgWithdrawSubmitted rat string
  | MsgAdminWithdrawal int rat string
  | MsgUpiNoted string
  | MsgWithdrawUpiInvalid
  | MsgSupportForward int string
  | MsgSupportThanks
  | MsgSupportPrompt
  | MsgUnauthorized
  | MsgUsagePay
  | MsgUsageCancel
  | MsgUsageCredit
  | MsgNotFound
  | MsgMarkedPaid
  | MsgPaid rat
  | MsgError
  | MsgCancelledRefunded
  | MsgYourWithdrawalCancelled
  | MsgTelegramIdNotNumber
  | MsgAmountNotNumber
  | MsgAmountZero
  | MsgUserNotFound
  | MsgAdminCredited rat string
  | MsgCreditedReply rat string
  | MsgReferralConfirmed rat rat
  | MsgManualConfirm bool nat nat
  | MsgAuditComplete nat nat

datatype out = Reply msg | Send int msg

section \<open>Collection primitives\<close>

text \<open>
  \<open>findOne(filter)\<close> is \<^const>\<open>find\<close> on the list; \<open>updateOne(filter, u)\<close> changes the
  first document that matches and nothing when none does.
\<close>

fun updateOne :: "('a \<Rightarrow> bool) \<Rightarrow> ('a \<Rightarrow> 'a) \<Rightarrow> 'a list \<Rightarrow> 'a list" where
  "updateOne q f [] = []"
| "updateOne q f (x # xs) = (if q x then f x # xs else x # updateOne q f xs)"

definition byTelegramId :: "int \<Rightarrow> user \<Rightarrow> bool" where
  "byTelegramId t u = (telegramId u = t)"

text \<open>
  The \<open>_id\<close> of a document of \<open>pending\<close> or \<open>withdrawals\<close> is its position in the
  collection: \<open>insertOne\<close> appends, no document is ever deleted, so the position is a
  fresh identifier that never changes. \<open>updateOne({_id: i}, u)\<close>:
\<close>

definition updateById :: "nat \<Rightarrow> ('a \<Rightarrow> 'a) \<Rightarrow> 'a list \<Rightarrow> 'a list" where
  "updateById i f xs = (if i < length xs then xs[i := f (xs ! i)] else xs)"

text \<open>\<open>find(filter).toArray()\<close>: the matching documents, each with its \<open>_id\<close>.\<close>

definition findAll :: "('a \<Rightarrow> bool) \<Rightarrow> 'a list \<Rightarrow> (nat \<times> 'a) list" where
  "findAll q xs = filter (\<lambda>(i, x). q x) (enumerate 0 xs)"

text \<open>\<open>withdrawalsCol.findOne({_id: i, status: "pending"})\<close>\<close>

definition findPendingWithdrawal :: "nat \<Rightarrow> withdrawal list \<Rightarrow> withdrawal option" where
  "findPendingWithdrawal i ws =
     (if i < length ws \<and> wstatus (ws ! i) = WPending then Some (ws ! i) else None)"

text \<open>JavaScript truthiness of an optional string (\<open>null\<close>, \<open>undefined\<close> and \<open>""\<close> are falsy)
  and \<open>x || 0\<close> on an optional number.\<close>

definition truthy :: "string option \<Rightarrow> bool" where
  "truthy x = (case x of None \<Rightarrow> False | Some s \<Rightarrow> s \<noteq> [])"

definition orZero :: "rat option \<Rightarrow> rat" where
  "orZero x = (case x of None \<Rightarrow> 0 | Some v \<Rightarrow> v)"

definition isAdmin :: "config \<Rightarrow> int \<Rightarrow> bool" where
  "isAdmin cfg i = (i \<in> set (ADMIN_IDS cfg))"

section \<open>Text helpers\<close>

text \<open>\<open>trim\<close>, \<open>toLowerCase\<close> and \<open>UPI_REGEX = /^[\w.\-]{2,}@[a-zA-Z]{2,}$/\<close> on ASCII text.\<close>

definition isSpace :: "char \<Rightarrow> bool" where
  "isSpace c = (c \<in> set [CHR '' '', CHR 0x09, CHR 0x0A, CHR 0x0B, CHR 0x0C, CHR 0x0D])"

definition trim :: "string \<Rightarrow> string" where
  "trim s = rev (dropWhile isSpace (rev (dropWhile isSpace s)))"

definition isUpper :: "char \<Rightarrow> bool" where
  "isUpper c = (65 \<le> (of_char c :: nat) \<and> (of_char c :: nat) \<le> 90)"

definition isLower :: "char \<Rightarrow> bool" where
  "isLower c = (97 \<le> (of_char c :: nat) \<and> (of_char c :: nat) \<le> 122)"

definition isDigit :: "char \<Rightarrow> bool" where
  "isDigit c = (48 \<le> (of_char c :: nat) \<and> (of_char c :: nat) \<le> 57)"

definition toLowerCase :: "string \<Rightarrow> string" where
  "toLowerCase s = map (\<lambda>c. if isUpper c then char_of (of_char c + (32 :: nat)) else c) s"

definition isUpiLocalChar :: "char \<Rightarrow> bool" where
  "isUpiLocalChar c =
     (isUpper c \<or> isLower c \<or> isDigit c \<or> c = CHR ''_'' \<or> c = CHR ''.'' \<or> c = CHR ''-'')"

definition UPI_REGEX_test :: "string \<Rightarrow> bool" where
  "UPI_REGEX_test t =
     (let l = takeWhile (\<lambda>c. c \<noteq> CHR ''@'') t;
          r = dropWhile (\<lambda>c. c \<noteq> CHR ''@'') t
      in r \<noteq> [] \<and> 2 \<le> length l \<and> list_all isUpiLocalChar l
         \<and> 2 \<le> length (tl r) \<and> list_all (\<lambda>c. isUpper c \<or> isLower c) (tl r))"

section \<open>Profiles and the start of the dialogues\<close>

text \<open>
  \<open>ensureUserProfile(from)\<close>: the stored profile of the sender, created when there is none.
  \<open>code\<close> is what \<open>makeReferralCode()\<close> draws. \<open>insertOne\<close> throws on the unique index
  of \<open>referralCode\<close> when the drawn code is taken; the result is then \<open>None\<close> and the
  calling handler ends in its \<open>catch\<close>. For a stored profile the source only refreshes
  fields that are not modelled.
\<close>

definition newUser :: "int \<Rightarrow> string \<Rightarrow> user" where
  "newUser tgId code =
     \<lparr> telegramId = tgId, referralCode = code, balance = 0, confirmedReferrals = 0,
       primaryUPI = None, needsUpiSetup = True, balanceLocked = None, lastWithdrawAt = None,
       awaitingUpiSetup = False, draftUpiSetup = None, awaitingWithdrawUPI = False,
       awaitingWithdrawUPIConfirm = False, draftWithdrawUPI = None,
       awaitingSupportMessage = False \<rparr>"

definition ensureUserProfile :: "int \<Rightarrow> string \<Rightarrow> store \<Rightarrow> (store \<times> user) option" where
  "ensureUserProfile tgId code s =
     (case find (byTelegramId tgId) (usersCol s) of
        Some u \<Rightarrow> Some (s, u)
      | None \<Rightarrow>
          if list_ex (\<lambda>u. referralCode u = code) (usersCol s) then None
          else Some (s\<lparr>usersCol := usersCol s @ [newUser tgId code]\<rparr>, newUser tgId code))"

text \<open>
  \<open>startWithdrawFlow(ctx, user)\<close>. \<open>user\<close> is the profile as the caller read it; the
  update itself is \<open>$set\<close> of the draft fields and \<open>$inc: {balance: -spendable}\<close> on the
  stored document.
\<close>

definition startWithdrawFlow :: "config \<Rightarrow> int \<Rightarrow> user \<Rightarrow> store \<Rightarrow> store \<times> out list" where
  "startWithdrawFlow cfg now usr s =
     (if (case balanceLocked usr of None \<Rightarrow> False | Some l \<Rightarrow> 0 < l)
      then (s, [Reply MsgAlreadyPending])
      else if balance usr < MIN_WITHDRAWAL cfg
      then (s, [Reply (MsgBelowMinimum (MIN_WITHDRAWAL cfg) (balance usr))])
      else
        let spendable = balance usr;
            saved = truthy (primaryUPI usr)
        in (s\<lparr>usersCol := updateOne (byTelegramId (telegramId usr))
                 (\<lambda>u. u\<lparr> awaitingWithdrawUPI := True,
                          balanceLocked := Some spendable,
                          lastWithdrawAt := Some now,
                          awaitingWithdrawUPIConfirm := saved,
                          draftWithdrawUPI := (if saved then primaryUPI usr else None),
                          balance := balance u - spendable \<rparr>)
                 (usersCol s)\<rparr>,
            [Reply (if saved then MsgSavedUpi (the (primaryUPI usr)) else MsgAskUpi)]))"

text \<open>\<open>startUpiSetup(ctx, user)\<close>\<close>

definition startUpiSetup :: "user \<Rightarrow> store \<Rightarrow> store \<times> out list" where
  "startUpiSetup usr s =
     (s\<lparr>usersCol := updateOne (byTelegramId (telegramId usr))
           (\<lambda>u. u\<lparr> awaitingUpiSetup := True, draftUpiSetup := None \<rparr>) (usersCol s)\<rparr>,
      [Reply (MsgUpiSetupPrompt (primaryUPI usr))])"

text \<open>The handlers \<open>/withdraw\<close> (and the button WITHDRAW), \<open>/setupi\<close> (and SETUP_UPI),
  and the button SUPPORT. When the profile cannot be created the store stays as it is; the
  command answers with an error text, the button with nothing.\<close>

definition withdrawCmd :: "config \<Rightarrow> int \<Rightarrow> string \<Rightarrow> int \<Rightarrow> store \<Rightarrow> store \<times> out list" where
  "withdrawCmd cfg sender code now s =
     (case ensureUserProfile sender code s of
        None \<Rightarrow> (s, [Reply MsgError])
      | Some (s1, u) \<Rightarrow> startWithdrawFlow cfg now u s1)"

definition setupiCmd :: "int \<Rightarrow> string \<Rightarrow> store \<Rightarrow> store \<times> out list" where
  "setupiCmd sender code s =
     (case ensureUserProfile sender code s of
        None \<Rightarrow> (s, [Reply MsgError])
      | Some (s1, u) \<Rightarrow> startUpiSetup u s1)"

definition supportAction :: "int \<Rightarrow> store \<Rightarrow> store \<times> out list" where
  "supportAction sender s =
     (s\<lparr>usersCol := updateOne (byTelegramId sender)
           (\<lambda>u. u\<lparr> awaitingSupportMessage := True \<rparr>) (usersCol s)\<rparr>,
      [Reply MsgSupportPrompt])"

section \<open>The text handler\<close>

text \<open>
  \<open>bot.on("text")\<close>. The three dialogue flags are tested in the order of the source:
  payout-target setup, withdrawal draft, support. \<open>now\<close> is the clock at the insert of
  the withdrawal. When no flag is set the handler changes nothing and passes the update on.
\<close>

definition unsetUpiSetup :: "user \<Rightarrow> user" where
  "unsetUpiSetup u = u\<lparr> awaitingUpiSetup := False, draftUpiSetup := None \<rparr>"

definition unsetWithdrawDraft :: "user \<Rightarrow> user" where
  "unsetWithdrawDraft u =
     u\<lparr> awaitingWithdrawUPI := False, awaitingWithdrawUPIConfirm := False,
        draftWithdrawUPI := None \<rparr>"

definition textUpiSetup :: "user \<Rightarrow> string \<Rightarrow> store \<Rightarrow> store \<times> out list" where
  "textUpiSetup u txt s =
     (let lower = toLowerCase txt; q = byTelegramId (telegramId u) in
      if lower = ''cancel'' then
        (s\<lparr>usersCol := updateOne q unsetUpiSetup (usersCol s)\<rparr>, [Reply MsgUpiSetupCancelled])
      else if lower = ''confirm'' then
        (if \<not> truthy (draftUpiSetup u) then (s, [Reply MsgSendUpiFirst])
         else
           (s\<lparr>usersCol := updateOne q
                 (\<lambda>d. unsetUpiSetup (d\<lparr> primaryUPI := draftUpiSetup u, needsUpiSetup := False \<rparr>))
                 (usersCol s)\<rparr>,
            [Reply (MsgUpiSaved (the (draftUpiSetup u)))]))
      else if UPI_REGEX_test txt then
        (s\<lparr>usersCol := updateOne q (\<lambda>d. d\<lparr> draftUpiSetup := Some txt \<rparr>) (usersCol s)\<rparr>,
         [Reply (MsgUpiCaptured txt)])
      else (s, [Reply MsgUpiSetupInvalid]))"

definition textWithdraw :: "config \<Rightarrow> int \<Rightarrow> user \<Rightarrow> string \<Rightarrow> store \<Rightarrow> store \<times> out list" where
  "textWithdraw cfg now u txt s =
     (let lower = toLowerCase txt; q = byTelegramId (telegramId u) in
      if lower = ''cancel'' then
        (s\<lparr>usersCol := updateOne q
              (\<lambda>d. (unsetWithdrawDraft d)\<lparr> balance := balance d + orZero (balanceLocked u),
                                          balanceLocked := None \<rparr>)
              (usersCol s)\<rparr>,
         [Reply MsgWithdrawCancelled])
      else if lower = ''confirm'' then
        (if \<not> awaitingWithdrawUPIConfirm u \<or> \<not> truthy (draftWithdrawUPI u)
         then (s, [Reply MsgSendUpiBeforeConfirm])
         else
           let amt = orZero (balanceLocked u); target = the (draftWithdrawUPI u) in
           (s\<lparr>withdrawalsCol := withdrawalsCol s @
                  [\<lparr> userId = telegramId u, upi = target, amount = amt, requestedAt = now,
                     wstatus = WPending, paidAt = None, paidBy = None, cancelledAt = None \<rparr>],
               usersCol := updateOne q
                  (\<lambda>d. (unsetWithdrawDraft d)\<lparr> primaryUPI := Some target,
                                              needsUpiSetup := False \<rparr>)
                  (usersCol s)\<rparr>,
            Reply (MsgWithdrawSubmitted amt target)
              # map (\<lambda>a. Send a (MsgAdminWithdrawal (telegramId u) amt target)) (ADMIN_IDS cfg)))
      else if UPI_REGEX_test txt then
        (s\<lparr>usersCol := updateOne q
              (\<lambda>d. d\<lparr> draftWithdrawUPI := Some txt, awaitingWithdrawUPIConfirm := True \<rparr>)
              (usersCol s)\<rparr>,
         [Reply (MsgUpiNoted txt)])
      else (s, [Reply MsgWithdrawUpiInvalid]))"

definition textSupport :: "config \<Rightarrow> user \<Rightarrow> string \<Rightarrow> store \<Rightarrow> store \<times> out list" where
  "textSupport cfg u txt s =
     (s\<lparr>usersCol := updateOne (byTelegramId (telegramId u))
           (\<lambda>d. d\<lparr> awaitingSupportMessage := False \<rparr>) (usersCol s)\<rparr>,
      map (\<lambda>a. Send a (MsgSupportForward (telegramId u) txt)) (ADMIN_IDS cfg)
        @ [Reply MsgSupportThanks])"

definition textHandler ::
  "config \<Rightarrow> int \<Rightarrow> string \<Rightarrow> string \<Rightarrow> int \<Rightarrow> store \<Rightarrow> store \<times> out list" where
  "textHandler cfg sender raw code now s =
     (let txt = trim raw in
      case ensureUserProfile sender code s of
        None \<Rightarrow> (s, [])
      | Some (s1, u) \<Rightarrow>
          if awaitingUpiSetup u then textUpiSetup u txt s1
          else if awaitingWithdrawUPI u then textWithdraw cfg now u txt s1
          else if awaitingSupportMessage u then textSupport cfg u txt s1
          else (s1, []))"

section \<open>Referral creation\<close>

text \<open>
  \<open>bot.start\<close>. \<open>payload\<close> is \<open>parts[1] || ""\<close>. A pending referral is stored when the
  payload is the code of another account and neither \<open>pending\<close> nor \<open>refs\<close> holds a
  document for the sender as the referred party.
\<close>

definition startCmd :: "int \<Rightarrow> string \<Rightarrow> string \<Rightarrow> int \<Rightarrow> store \<Rightarrow> store \<times> out list" where
  "startCmd sender payload code now s =
     (case ensureUserProfile sender code s of
        None \<Rightarrow> (s, [])
      | Some (s1, u) \<Rightarrow>
          if take 4 payload = ''ref_'' then
            (case find (\<lambda>r. referralCode r = payload) (usersCol s1) of
               None \<Rightarrow> (s1, [Reply MsgMainMenu])
             | Some referrer \<Rightarrow>
                 if telegramId referrer \<noteq> telegramId u
                    \<and> find (\<lambda>p. referredId p = telegramId u) (pendingCol s1) = None
                    \<and> find (\<lambda>r. refReferredId r = telegramId u) (refsCol s1) = None
                 then
                   (s1\<lparr>pendingCol := pendingCol s1 @
                          [\<lparr> referredId = telegramId u, referrerId = telegramId referrer,
                             usedCode = payload, createdAt = now, status = PPending,
                             reason = None, confirmedAt = None \<rparr>]\<rparr>,
                    [Send (telegramId referrer) MsgYouReferred, Reply MsgMainMenu])
                 else (s1, [Reply MsgMainMenu]))
          else (s1, [Reply MsgMainMenu]))"

text \<open>Handlers that only look the profile up (\<open>/balance\<close>, \<open>/profile\<close>, \<open>/status\<close>,
  CHECK_REQUIREMENTS): their one possible write is the creation of the profile.\<close>

definition profileCmd :: "int \<Rightarrow> string \<Rightarrow> store \<Rightarrow> store \<times> out list" where
  "profileCmd sender code s =
     (case ensureUserProfile sender code s of
        None \<Rightarrow> (s, [Reply MsgError])
      | Some (s1, u) \<Rightarrow> (s1, [Reply MsgInfo]))"

section \<open>Administrator commands\<close>

text \<open>
  The argument of \<open>/pay\<close> and \<open>/cancelwithdraw\<close>: no second token, a token that
  \<open>new ObjectId\<close> rejects, or the \<open>_id\<close> of a withdrawal (which may or may not exist).
\<close>

datatype idarg = NoArg | BadId | ObjId nat

definition pay :: "config \<Rightarrow> int \<Rightarrow> idarg \<Rightarrow> int \<Rightarrow> store \<Rightarrow> store \<times> out list" where
  "pay cfg sender a now s =
     (if \<not> isAdmin cfg sender then (s, [Reply MsgUnauthorized])
      else case a of
        NoArg \<Rightarrow> (s, [Reply MsgUsagePay])
      | BadId \<Rightarrow> (s, [Reply MsgError])
      | ObjId i \<Rightarrow>
          (case findPendingWithdrawal i (withdrawalsCol s) of
             None \<Rightarrow> (s, [Reply MsgNotFound])
           | Some w \<Rightarrow>
               (s\<lparr>withdrawalsCol := updateById i
                     (\<lambda>d. d\<lparr> wstatus := WPaid, paidAt := Some now, paidBy := Some sender \<rparr>)
                     (withdrawalsCol s),
                  usersCol := updateOne (byTelegramId (userId w))
                     (\<lambda>u. u\<lparr> balanceLocked := None \<rparr>) (usersCol s)\<rparr>,
                [Reply MsgMarkedPaid, Send (userId w) (MsgPaid (amount w))])))"

definition cancelwithdraw :: "config \<Rightarrow> int \<Rightarrow> idarg \<Rightarrow> int \<Rightarrow> store \<Rightarrow> store \<times> out list" where
  "cancelwithdraw cfg sender a now s =
     (if \<not> isAdmin cfg sender then (s, [Reply MsgUnauthorized])
      else case a of
        NoArg \<Rightarrow> (s, [Reply MsgUsageCancel])
      | BadId \<Rightarrow> (s, [])
      | ObjId i \<Rightarrow>
          (case findPendingWithdrawal i (withdrawalsCol s) of
             None \<Rightarrow> (s, [Reply MsgNotFound])
           | Some w \<Rightarrow>
               (s\<lparr>withdrawalsCol := updateById i
                     (\<lambda>d. d\<lparr> wstatus := WCancelled, cancelledAt := Some now \<rparr>)
                     (withdrawalsCol s),
                  usersCol := updateOne (byTelegramId (userId w))
                     (\<lambda>u. u\<lparr> balance := balance u + amount w, balanceLocked := None \<rparr>)
                     (usersCol s)\<rparr>,
                [Reply MsgCancelledRefunded, Send (userId w) MsgYourWithdrawalCancelled])))"

text \<open>
  \<open>/admin_credit <telegramId> <amount> [note]\<close>. \<open>jsnum\<close> is the value of \<open>Number(token)\<close>:
  a finite number, or one that \<open>Number.isFinite\<close> rejects (NaN or an infinity).
  \<open>TooFew\<close> stands for fewer than three tokens.
\<close>

datatype jsnum = Finite rat | NotFinite

datatype creditargs = TooFew | CreditArgs jsnum jsnum string

definition admin_credit :: "config \<Rightarrow> int \<Rightarrow> creditargs \<Rightarrow> store \<Rightarrow> store \<times> out list" where
  "admin_credit cfg sender args s =
     (if \<not> isAdmin cfg sender then (s, [Reply MsgUnauthorized])
      else case args of
        TooFew \<Rightarrow> (s, [Reply MsgUsageCredit])
      | CreditArgs targetId amt note \<Rightarrow>
          (case targetId of
             NotFinite \<Rightarrow> (s, [Reply MsgTelegramIdNotNumber])
           | Finite t \<Rightarrow>
               (case amt of
                  NotFinite \<Rightarrow> (s, [Reply MsgAmountNotNumber])
                | Finite a \<Rightarrow>
                    if a = 0 then (s, [Reply MsgAmountZero])
                    else
                      (case find (\<lambda>u. of_int (telegramId u) = t) (usersCol s) of
                         None \<Rightarrow> (s, [Reply MsgUserNotFound])
                       | Some usr \<Rightarrow>
                           (s\<lparr>usersCol := updateOne (\<lambda>u. of_int (telegramId u) = t)
                                 (\<lambda>u. u\<lparr> balance := balance u + a \<rparr>) (usersCol s)\<rparr>,
                            [Send (telegramId usr) (MsgAdminCredited a note),
                             Reply (MsgCreditedReply a note)])))))"

section \<open>The referral confirmation job\<close>

text \<open>
  \<open>confirmPendingReferrals({force})\<close>. \<open>cutoff\<close> is
  \<open>new Date(Date.now() - CONFIRM_DELAY_HOURS * 3600 * 1000)\<close>; a \<open>Date\<close> drops the
  fraction of its millisecond value towards zero.
\<close>

record summary =
  confirmed :: "nat list"
  invalidated :: "nat list"

definition cutoff :: "config \<Rightarrow> int \<Rightarrow> int" where
  "cutoff cfg now =
     (let x = of_int now - CONFIRM_DELAY_HOURS cfg * 3600 * 1000
      in if 0 \<le> x then \<lfloor>x\<rfloor> else \<lceil>x\<rceil>)"

definition selectPending :: "config \<Rightarrow> bool \<Rightarrow> int \<Rightarrow> pending list \<Rightarrow> (nat \<times> pending) list" where
  "selectPending cfg force now ps =
     findAll (\<lambda>p. status p = PPending \<and> (force \<or> createdAt p \<le> cutoff cfg now)) ps"

text \<open>
  The body of the loop for one document \<open>p\<close> of the array that \<open>find\<close> returned, \<open>i\<close>
  its \<open>_id\<close>. The decisions are taken on \<open>p\<close> as it was read, the updates go to the
  store. The credit is \<open>findOneAndUpdate\<close> with \<open>$inc\<close> on the referrer; the change of
  status is \<open>updateOne({_id: p._id}, {$set: ...})\<close>, whose filter is the \<open>_id\<close> alone.

  After the credit the source tests \<open>!updateResult.value\<close>. With the result metadata
  that is the updated document, absent when no referrer matched. With a driver that
  returns the document itself, \<open>value\<close> is a field no account has: when a referrer
  matched (and was credited) the test succeeds and the record is marked invalid with
  reason \<open>no_referrer_record\<close>; when none matched the result is \<open>null\<close>, reading
  \<open>value\<close> throws, and the \<open>catch\<close> of the loop body leaves the record as it is.
\<close>

definition markInvalid :: "nat \<Rightarrow> preason \<Rightarrow> store \<Rightarrow> store" where
  "markInvalid i why s =
     s\<lparr>pendingCol := updateById i (\<lambda>d. d\<lparr> status := PInvalid, reason := Some why \<rparr>)
                      (pendingCol s)\<rparr>"

text \<open>\<open>findOneAndUpdate({telegramId: referrerId}, {$inc: {balance: REFERRAL_REWARD,
  confirmedReferrals: 1}})\<close> on the accounts.\<close>

definition creditReferrer :: "config \<Rightarrow> int \<Rightarrow> store \<Rightarrow> store" where
  "creditReferrer cfg referrer s =
     s\<lparr>usersCol := updateOne (byTelegramId referrer)
           (\<lambda>u. u\<lparr> balance := balance u + REFERRAL_REWARD cfg,
                    confirmedReferrals := confirmedReferrals u + 1 \<rparr>)
           (usersCol s)\<rparr>"

definition processPending ::
  "config \<Rightarrow> int \<Rightarrow> nat \<times> pending \<Rightarrow> store \<times> summary \<times> out list \<Rightarrow> store \<times> summary \<times> out list"
where
  "processPending cfg now ip acc =
     (case (ip, acc) of ((i, p), (s, sm, outs)) \<Rightarrow>
        if referredId p = referrerId p then
          (markInvalid i self_referral s, sm\<lparr>invalidated := invalidated sm @ [i]\<rparr>, outs)
        else
          (case find (byTelegramId (referredId p)) (usersCol s) of
             None \<Rightarrow>
               (markInvalid i no_user_record s, sm\<lparr>invalidated := invalidated sm @ [i]\<rparr>, outs)
           | Some referred \<Rightarrow>
               (case find (byTelegramId (referrerId p)) (usersCol s) of
                  None \<Rightarrow>
                    if resultMetadata cfg then
                      (markInvalid i no_referrer_record s,
                       sm\<lparr>invalidated := invalidated sm @ [i]\<rparr>, outs)
                    else (s, sm, outs)
                | Some r \<Rightarrow>
                    if resultMetadata cfg then
                      ((creditReferrer cfg (referrerId p) s)
                         \<lparr>pendingCol := updateById i
                            (\<lambda>d. d\<lparr> status := PConfirmed, confirmedAt := Some now \<rparr>)
                            (pendingCol s),
                          refsCol := refsCol s @
                            [\<lparr> refReferrerId = referrerId p, refReferredId = referredId p,
                               refCode = usedCode p, refConfirmedAt = now \<rparr>]\<rparr>,
                       sm\<lparr>confirmed := confirmed sm @ [i]\<rparr>,
                       outs @ [Send (referrerId p)
                                 (MsgReferralConfirmed (REFERRAL_REWARD cfg)
                                    (balance r + REFERRAL_REWARD cfg))])
                    else
                      (markInvalid i no_referrer_record (creditReferrer cfg (referrerId p) s),
                       sm\<lparr>invalidated := invalidated sm @ [i]\<rparr>, outs))))"

fun confirmLoop ::
  "config \<Rightarrow> int \<Rightarrow> (nat \<times> pending) list \<Rightarrow> store \<times> summary \<times> out list
     \<Rightarrow> store \<times> summary \<times> out list"
where
  "confirmLoop cfg now [] acc = acc"
| "confirmLoop cfg now (ip # rest) acc = confirmLoop cfg now rest (processPending cfg now ip acc)"

definition confirmPendingReferrals ::
  "config \<Rightarrow> bool \<Rightarrow> int \<Rightarrow> store \<Rightarrow> store \<times> summary \<times> out list" where
  "confirmPendingReferrals cfg force now s =
     confirmLoop cfg now (selectPending cfg force now (pendingCol s))
       (s, \<lparr> confirmed = [], invalidated = [] \<rparr>, [])"

text \<open>The callers: \<open>/admin_confirm [force]\<close>, the button ADMIN_CONFIRM (always forced),
  and the timer and the start-up run (never forced, nothing replied).\<close>

definition adminConfirmCmd :: "config \<Rightarrow> int \<Rightarrow> bool \<Rightarrow> int \<Rightarrow> store \<Rightarrow> store \<times> out list" where
  "adminConfirmCmd cfg sender force now s =
     (if \<not> isAdmin cfg sender then (s, [Reply MsgUnauthorized])
      else case confirmPendingReferrals cfg force now s of
        (s1, sm, outs) \<Rightarrow>
          (s1, outs @ [Reply (MsgManualConfirm force (length (confirmed sm))
                                (length (invalidated sm)))]))"

definition adminConfirmAction :: "config \<Rightarrow> int \<Rightarrow> int \<Rightarrow> store \<Rightarrow> store \<times> out list" where
  "adminConfirmAction cfg sender now s =
     (if \<not> isAdmin cfg sender then (s, [Reply MsgUnauthorized])
      else case confirmPendingReferrals cfg True now s of
        (s1, sm, outs) \<Rightarrow>
          (s1, outs @ [Reply (MsgAuditComplete (length (confirmed sm))
                                (length (invalidated sm)))]))"

definition sweep :: "config \<Rightarrow> int \<Rightarrow> store \<Rightarrow> store \<times> out list" where
  "sweep cfg now s =
     (case confirmPendingReferrals cfg False now s of (s1, sm, outs) \<Rightarrow> (s1, outs))"

section \<open>Operations\<close>

text \<open>
  One constructor per handler that can write to the four collections, with what the
  handler takes from the update and from its environment (the clock, the referral code
  that would be drawn for a new profile). An update whose command is registered after
  the text handler (the administrator commands) first runs the text handler and then,
  when that one passes it on, the command: two operations in a row.
\<close>

datatype op =
    OpStart int string string int
  | OpProfile int string
  | OpWithdraw int string int
  | OpSetupUpi int string
  | OpSupport int
  | OpText int string string int
  | OpPay int idarg int
  | OpCancelWithdraw int idarg int
  | OpAdminCredit int creditargs
  | OpAdminConfirm int bool int
  | OpAdminConfirmButton int int
  | OpSweep int

fun step :: "config \<Rightarrow> op \<Rightarrow> store \<Rightarrow> store \<times> out list" where
  "step cfg (OpStart sender payload code now) s = startCmd sender payload code now s"
| "step cfg (OpProfile sender code) s = profileCmd sender code s"
| "step cfg (OpWithdraw sender code now) s = withdrawCmd cfg sender code now s"
| "step cfg (OpSetupUpi sender code) s = setupiCmd sender code s"
| "step cfg (OpSupport sender) s = supportAction sender s"
| "step cfg (OpText sender raw code now) s = textHandler cfg sender raw code now s"
| "step cfg (OpPay sender a now) s = pay cfg sender a now s"
| "step cfg (OpCancelWithdraw sender a now) s = cancelwithdraw cfg sender a now s"
| "step cfg (OpAdminCredit sender args) s = admin_credit cfg sender args s"
| "step cfg (OpAdminConfirm sender force now) s = adminConfirmCmd cfg sender force now s"
| "step cfg (OpAdminConfirmButton sender now) s = adminConfirmAction cfg sender now s"
| "step cfg (OpSweep now) s = sweep cfg now s"

definition emptyStore :: store where
  "emptyStore = \<lparr> usersCol = [], pendingCol = [], withdrawalsCol = [], refsCol = [] \<rparr>"

text \<open>
  Operations run one after another, each to its end before the next starts. This is
  not every schedule of the program: two handlers can overlap at their awaits, one
  reading before the other has written. The properties below that are stated of
  \<open>runSequential\<close> and \<open>reachableSequential\<close> are properties of such runs only.
\<close>

fun runSequential :: "config \<Rightarrow> op list \<Rightarrow> store \<Rightarrow> store" where
  "runSequential cfg [] s = s"
| "runSequential cfg (x # xs) s = runSequential cfg xs (fst (step cfg x s))"

text \<open>
  One schedule with overlap: two \<open>/withdraw\<close> updates of the same sender, both of which
  have read the profile (\<open>ensureUserProfile\<close>) before either runs \<open>startWithdrawFlow\<close>
  on what it read.
\<close>

definition withdrawOverlapped ::
  "config \<Rightarrow> int \<Rightarrow> string \<Rightarrow> int \<Rightarrow> int \<Rightarrow> store \<Rightarrow> store" where
  "withdrawOverlapped cfg sender code now1 now2 s =
     (case ensureUserProfile sender code s of
        None \<Rightarrow> s
      | Some (s1, u) \<Rightarrow>
          fst (startWithdrawFlow cfg now2 u (fst (startWithdrawFlow cfg now1 u s1))))"

section \<open>Indexes\<close>

text \<open>The indexes that \<open>connectDB\<close> creates: collection, key, and whether the index is
  declared unique.\<close>

definition connectDB_indexes :: "(string \<times> string \<times> bool) list" where
  "connectDB_indexes =
     [(''users'', ''telegramId'', True),
      (''users'', ''referralCode'', True),
      (''pending'', ''createdAt'', False),
      (''withdrawals'', ''status'', False),
      (''requiredChannels'', ''chatId'', True)]"

section \<open>Runs and what is observed of them\<close>

text \<open>The stores that a sequence of operations, each run to its end before the next
  starts, can produce from the empty database.\<close>

inductive reachableSequential :: "config \<Rightarrow> store \<Rightarrow> bool" for cfg :: config where
  reachable_init: "reachableSequential cfg emptyStore"
| reachable_step: "reachableSequential cfg s \<Longrightarrow> reachableSequential cfg (fst (step cfg x s))"

text \<open>
  The credits of a pass. A round of the loop credits the referrer when it changes the
  accounts (the \<open>$inc\<close> of \<open>confirmedReferrals\<close> changes every document it matches);
  what the round then writes to the summary depends on the driver, so the credits are
  read off the accounts, not off the summary. \<open>creditsOf\<close> lists the \<open>_id\<close>s of the
  crediting rounds of a loop, \<open>passCredits\<close> those of a pass, \<open>creditedBy\<close> those of the
  pass an operation runs, \<open>creditedIds\<close> those of a sequence of operations.
\<close>

fun creditsOf ::
  "config \<Rightarrow> int \<Rightarrow> (nat \<times> pending) list \<Rightarrow> store \<times> summary \<times> out list \<Rightarrow> nat list"
where
  "creditsOf cfg now [] acc = []"
| "creditsOf cfg now (ip # rest) acc =
     (if usersCol (fst (processPending cfg now ip acc)) \<noteq> usersCol (fst acc)
      then [fst ip] else [])
     @ creditsOf cfg now rest (processPending cfg now ip acc)"

definition passCredits :: "config \<Rightarrow> bool \<Rightarrow> int \<Rightarrow> store \<Rightarrow> nat list" where
  "passCredits cfg force now s =
     creditsOf cfg now (selectPending cfg force now (pendingCol s))
       (s, \<lparr> confirmed = [], invalidated = [] \<rparr>, [])"

fun creditedBy :: "config \<Rightarrow> op \<Rightarrow> store \<Rightarrow> nat list" where
  "creditedBy cfg (OpSweep now) s = passCredits cfg False now s"
| "creditedBy cfg (OpAdminConfirm sender force now) s =
     (if isAdmin cfg sender then passCredits cfg force now s else [])"
| "creditedBy cfg (OpAdminConfirmButton sender now) s =
     (if isAdmin cfg sender then passCredits cfg True now s else [])"
| "creditedBy cfg x s = []"

fun creditedIds :: "config \<Rightarrow> op list \<Rightarrow> store \<Rightarrow> nat list" where
  "creditedIds cfg [] s = []"
| "creditedIds cfg (x # xs) s = creditedBy cfg x s @ creditedIds cfg xs (fst (step cfg x s))"

text \<open>Balance plus locked balance of an account, and of the account with a given id
  (0 when there is none).\<close>

definition accountTotal :: "user \<Rightarrow> rat" where
  "accountTotal u = balance u + orZero (balanceLocked u)"

definition total :: "store \<Rightarrow> int \<Rightarrow> rat" where
  "total s t =
     (case find (byTelegramId t) (usersCol s) of
        None \<Rightarrow> 0
      | Some u \<Rightarrow> accountTotal u)"

text \<open>
  The state of the withdrawal lock of an account: its locked balance and whether its
  withdrawal dialogue is open. The invariant that ties the locks to the withdrawals: a
  pending withdrawal has a positive amount, its owner's locked balance is that amount and
  the owner's dialogue is closed; an account has at most one pending withdrawal; an
  account whose dialogue is open has a positive amount locked.
\<close>

definition lockView :: "store \<Rightarrow> int \<Rightarrow> (rat option \<times> bool) option" where
  "lockView s t =
     map_option (\<lambda>u. (balanceLocked u, awaitingWithdrawUPI u))
       (find (byTelegramId t) (usersCol s))"

definition isPendingAt :: "store \<Rightarrow> nat \<Rightarrow> bool" where
  "isPendingAt s i =
     (i < length (withdrawalsCol s) \<and> wstatus (withdrawalsCol s ! i) = WPending)"

definition ledgerInv :: "store \<Rightarrow> bool" where
  "ledgerInv s =
     ((\<forall>i. isPendingAt s i \<longrightarrow>
          0 < amount (withdrawalsCol s ! i)
          \<and> lockView s (userId (withdrawalsCol s ! i))
              = Some (Some (amount (withdrawalsCol s ! i)), False))
      \<and> (\<forall>i j. isPendingAt s i \<and> isPendingAt s j
            \<and> userId (withdrawalsCol s ! i) = userId (withdrawalsCol s ! j) \<longrightarrow> i = j)
      \<and> (\<forall>t l. lockView s t = Some (l, True) \<longrightarrow> (\<exists>a. l = Some a \<and> 0 < a)))"

text \<open>An operation that settles a withdrawal (\<open>/pay\<close> by an administrator on a pending
  withdrawal), and an administrator credit of a negative amount.\<close>

fun settles :: "config \<Rightarrow> op \<Rightarrow> store \<Rightarrow> bool" where
  "settles cfg (OpPay sender (ObjId i) now) s =
     (isAdmin cfg sender \<and> findPendingWithdrawal i (withdrawalsCol s) \<noteq> None)"
| "settles cfg x s = False"

fun negativeCredit :: "op \<Rightarrow> bool" where
  "negativeCredit (OpAdminCredit sender (CreditArgs t (Finite a) note)) = (a < 0)"
| "negativeCredit x = False"

text \<open>No balance, locked balance or withdrawal amount is negative.\<close>

definition nonneg :: "store \<Rightarrow> bool" where
  "nonneg s =
     (list_all (\<lambda>u. 0 \<le> balance u \<and> 0 \<le> orZero (balanceLocked u)) (usersCol s)
      \<and> list_all (\<lambda>w. 0 \<le> amount w) (withdrawalsCol s))"

section \<open>Concrete inputs\<close>

text \<open>The default configuration of bot.js (48 hours, minimum 50, reward 0.5) with one
  administrator, once for each kind of driver, and a profile with a balance of 100.\<close>

definition demoConfig :: config where
  "demoConfig = \<lparr> ADMIN_IDS = [9], CONFIRM_DELAY_HOURS = 48, MIN_WITHDRAWAL = 50,
                  REFERRAL_REWARD = 1 / 2, resultMetadata = True \<rparr>"

definition demoConfigDoc :: config where
  "demoConfigDoc = demoConfig\<lparr> resultMetadata := False \<rparr>"

text \<open>The same with a minimum withdrawal of 0, and with a reward of \<open>-1\<close>.\<close>

definition demoConfigMin0 :: config where
  "demoConfigMin0 = demoConfig\<lparr> MIN_WITHDRAWAL := 0 \<rparr>"

definition demoConfigNegReward :: config where
  "demoConfigNegReward = demoConfig\<lparr> REFERRAL_REWARD := - 1 \<rparr>"

definition demoUser :: user where
  "demoUser = (newUser 1 ''ref_a'')\<lparr> balance := 100 \<rparr>"

definition demoStore :: store where
  "demoStore = emptyStore\<lparr> usersCol := [demoUser, newUser 2 ''ref_b''] \<rparr>"

definition demoWithdrawal :: withdrawal where
  "demoWithdrawal = \<lparr> userId = 1, upi = ''name@bank'', amount = 100, requestedAt = 5,
                      wstatus = WPending, paidAt = None, paidBy = None, cancelledAt = None \<rparr>"

text \<open>The store after the profile of \<open>demoUser\<close> has drafted and confirmed a withdrawal
  of its whole balance.\<close>

definition demoLockedStore :: store where
  "demoLockedStore =
     emptyStore\<lparr> usersCol := [demoUser\<lparr> balance := 0, balanceLocked := Some 100 \<rparr>],
                 withdrawalsCol := [demoWithdrawal] \<rparr>"

text \<open>The same profile with the payout-target dialogue open (after \<open>/setupi\<close>).\<close>

definition demoSetupStore :: store where
  "demoSetupStore = emptyStore\<lparr> usersCol := [demoUser\<lparr> awaitingUpiSetup := True \<rparr>] \<rparr>"

text \<open>That profile after \<open>/withdraw\<close> and the text "cancel"; and the profile of
  \<open>demoStore\<close> after \<open>/withdraw\<close> followed by \<open>/setupi\<close>, or by the SUPPORT button.\<close>

definition demoSetupCancelled :: store where
  "demoSetupCancelled =
     fst (textHandler demoConfig 1 ''cancel'' ''ref_x'' 8
            (fst (withdrawCmd demoConfig 1 ''ref_x'' 7 demoSetupStore)))"

definition demoDraftThenSetup :: store where
  "demoDraftThenSetup =
     fst (setupiCmd 1 ''ref_x'' (fst (withdrawCmd demoConfig 1 ''ref_x'' 7 demoStore)))"

definition demoDraftThenSupport :: store where
  "demoDraftThenSupport =
     fst (supportAction 1 (fst (withdrawCmd demoConfig 1 ''ref_x'' 7 demoStore)))"

text \<open>Account 2 arrived through the referral link of account 1; the pending referral
  has \<open>_id\<close> 0.\<close>

definition demoPending :: pending where
  "demoPending = \<lparr> referredId = 2, referrerId = 1, usedCode = ''ref_a'', createdAt = 0,
                   status = PPending, reason = None, confirmedAt = None \<rparr>"

definition demoRefStore :: store where
  "demoRefStore = demoStore\<lparr> pendingCol := [demoPending] \<rparr>"

definition noSummary :: summary where
  "noSummary = \<lparr> confirmed = [], invalidated = [] \<rparr>"

text \<open>Two forced passes over \<open>demoRefStore\<close> whose \<open>find\<close> both ran before either
  processed its array: \<open>demoSelected\<close> is what each of them read, the second pass then
  runs its loop on the store the first one left.\<close>

definition demoSelected :: "(nat \<times> pending) list" where
  "demoSelected = selectPending demoConfig True 8 (pendingCol demoRefStore)"

definition demoPassA :: "store \<times> summary \<times> out list" where
  "demoPassA = confirmLoop demoConfig 8 demoSelected (demoRefStore, noSummary, [])"

definition demoPassB :: "store \<times> summary \<times> out list" where
  "demoPassB = confirmLoop demoConfig 9 demoSelected (fst demoPassA, noSummary, [])"

text \<open>The same two passes with a driver that returns the document.\<close>

definition demoPassADoc :: "store \<times> summary \<times> out list" where
  "demoPassADoc = confirmLoop demoConfigDoc 8 demoSelected (demoRefStore, noSummary, [])"

definition demoPassBDoc :: "store \<times> summary \<times> out list" where
  "demoPassBDoc = confirmLoop demoConfigDoc 9 demoSelected (fst demoPassADoc, noSummary, [])"

text \<open>A pending referral whose two parties are the same account.\<close>

definition demoSelfPending :: pending where
  "demoSelfPending = demoPending\<lparr> referredId := 1 \<rparr>"

definition demoSelfStore :: store where
  "demoSelfStore = demoStore\<lparr> pendingCol := [demoSelfPending] \<rparr>"

text \<open>A run from the empty database: account 1 is created, credited 100, drafts a
  withdrawal, names a payout target and confirms; the withdrawal has \<open>_id\<close> 0.\<close>

definition demoOps :: "op list" where
  "demoOps =
     [OpProfile 1 ''ref_a'',
      OpAdminCredit 9 (CreditArgs (Finite 1) (Finite 100) ''bonus''),
      OpWithdraw 1 ''ref_x'' 7,
      OpText 1 ''name@bank'' ''ref_x'' 8,
      OpText 1 ''confirm'' ''ref_x'' 9]"

text \<open>
  With a minimum of 0: account 1 drafts and confirms a withdrawal of its balance of 0
  (\<open>_id\<close> 0, pending), is credited 100 and drafts again, which locks the 100.
\<close>

definition demoOpsMin0 :: "op list" where
  "demoOpsMin0 =
     [OpProfile 1 ''ref_a'',
      OpWithdraw 1 ''ref_x'' 7,
      OpText 1 ''name@bank'' ''ref_x'' 8,
      OpText 1 ''confirm'' ''ref_x'' 9,
      OpAdminCredit 9 (CreditArgs (Finite 1) (Finite 100) ''bonus''),
      OpWithdraw 1 ''ref_x'' 11]"

text \<open>Account 1 is created, credited 100, and account 2 arrives through its link.\<close>

definition demoOpsReferral :: "op list" where
  "demoOpsReferral =
     [OpProfile 1 ''ref_a'',
      OpAdminCredit 9 (CreditArgs (Finite 1) (Finite 100) ''bonus''),
      OpStart 2 ''ref_a'' ''ref_b'' 0]"

section \<open>Facts about the collection primitives\<close>

lemma find_updateOne_tid:
  assumes "\<And>u. telegramId (f u) = telegramId u"
  shows "find (byTelegramId t) (updateOne (byTelegramId t') f xs) =
         (if t = t' then map_option f (find (byTelegramId t) xs) else find (byTelegramId t) xs)"
  using assms by (induction xs) (auto simp: byTelegramId_def)

lemma updateOne_none: "find q xs = None \<Longrightarrow> updateOne q f xs = xs"
  by (induction xs) (auto split: if_splits)

lemma find_append_new:
  "find q (xs @ [x]) =
     (case find q xs of Some y \<Rightarrow> Some y | None \<Rightarrow> if q x then Some x else None)"
  by (induction xs) auto

lemma find_tid_Some: "find (byTelegramId t) xs = Some u \<Longrightarrow> telegramId u = t \<and> u \<in> set xs"
  by (auto simp: find_Some_iff byTelegramId_def)

lemma ensure_existing:
  "find (byTelegramId t) (usersCol s) = Some u \<Longrightarrow> ensureUserProfile t code s = Some (s, u)"
  by (simp add: ensureUserProfile_def)

lemma updateById_length [simp]: "length (updateById i f xs) = length xs"
  by (simp add: updateById_def)

lemma updateById_nth:
  "j < length xs \<Longrightarrow> updateById i f xs ! j = (if j = i then f (xs ! j) else xs ! j)"
  by (simp add: updateById_def)

lemma updateById_map:
  "(\<And>d. g (f d) = g d) \<Longrightarrow> map g (updateById i f xs) = map g xs"
  by (simp add: updateById_def map_update list_update_same_conv)

lemma findAll_iff:
  "(i, x) \<in> set (findAll q xs) \<longleftrightarrow> i < length xs \<and> xs ! i = x \<and> q x"
  by (auto simp: findAll_def in_set_enumerate_eq)

lemma findAll_distinct: "distinct (map fst (findAll q xs))"
  by (simp add: findAll_def distinct_map_filter)


section \<open>Starting a withdrawal locks the whole balance\<close>

text \<open>
  C10. For a stored account whose locked balance is not positive and whose balance is at
  least \<open>MIN_WITHDRAWAL\<close>, \<open>/withdraw\<close> sets \<open>balanceLocked\<close> to exactly the balance the
  account had and the balance to 0, and opens the withdrawal dialogue. The handler takes
  no amount: the whole balance is the only amount that can be drafted.
\<close>

theorem withdraw_locks_entire_balance:
  assumes "find (byTelegramId sender) (usersCol s) = Some u"
      and "\<not> 0 < orZero (balanceLocked u)"
      and "MIN_WITHDRAWAL cfg \<le> balance u"
  shows "\<exists>u'. find (byTelegramId sender) (usersCol (fst (withdrawCmd cfg sender code now s)))
                = Some u'
            \<and> balanceLocked u' = Some (balance u) \<and> balance u' = 0 \<and> awaitingWithdrawUPI u'"
proof -
  have tid: "telegramId u = sender"
    using assms(1) by (simp add: find_tid_Some)
  have nolock: "\<not> (case balanceLocked u of None \<Rightarrow> False | Some l \<Rightarrow> 0 < l)"
    using assms(2) by (auto simp: orZero_def split: option.splits)
  show ?thesis
    using assms(1,3) nolock tid
    by (simp add: withdrawCmd_def ensure_existing startWithdrawFlow_def Let_def
          find_updateOne_tid)
qed

theorem withdraw_locks_entire_balance_witness:
  "find (byTelegramId 1) (usersCol demoStore) = Some demoUser
   \<and> \<not> 0 < orZero (balanceLocked demoUser)
   \<and> MIN_WITHDRAWAL demoConfig \<le> balance demoUser
   \<and> (\<exists>u'. find (byTelegramId 1)
               (usersCol (fst (withdrawCmd demoConfig 1 ''ref_x'' 7 demoStore))) = Some u'
           \<and> balanceLocked u' = Some 100 \<and> balance u' = 0 \<and> awaitingWithdrawUPI u')"
proof -
  have h1: "find (byTelegramId 1) (usersCol demoStore) = Some demoUser"
    by (simp add: demoStore_def demoUser_def emptyStore_def newUser_def byTelegramId_def)
  have h2: "\<not> 0 < orZero (balanceLocked demoUser)"
    by (simp add: demoUser_def newUser_def orZero_def)
  have h3: "MIN_WITHDRAWAL demoConfig \<le> balance demoUser"
    by (simp add: demoUser_def demoConfig_def)
  have b: "balance demoUser = 100"
    by (simp add: demoUser_def)
  show ?thesis
    using withdraw_locks_entire_balance [OF h1 h2 h3, of "''ref_x''" 7] h1 h2 h3 b by simp
qed

section \<open>Settling a withdrawal\<close>

text \<open>
  C6. \<open>/pay\<close> by an administrator on a withdrawal whose status is pending sets the status
  to paid, stamps \<open>paidAt\<close> and \<open>paidBy\<close>, removes \<open>balanceLocked\<close> from the owner's
  account and leaves every balance as it was; the owner is notified once. On a withdrawal
  that is not pending it changes nothing, answers "Not found." and notifies nobody.
\<close>

theorem pay_settles_pending_only:
  assumes "isAdmin cfg sender" and "i < length (withdrawalsCol s)"
  shows "(wstatus (withdrawalsCol s ! i) = WPending \<longrightarrow>
            (let w = withdrawalsCol s ! i; r = pay cfg sender (ObjId i) now s in
               withdrawalsCol (fst r) =
                 (withdrawalsCol s)
                   [i := w\<lparr> wstatus := WPaid, paidAt := Some now, paidBy := Some sender \<rparr>]
             \<and> (\<forall>t. find (byTelegramId t) (usersCol (fst r)) =
                     (if t = userId w
                      then map_option (\<lambda>u. u\<lparr> balanceLocked := None \<rparr>)
                             (find (byTelegramId t) (usersCol s))
                      else find (byTelegramId t) (usersCol s)))
             \<and> (\<forall>t. map_option balance (find (byTelegramId t) (usersCol (fst r))) =
                     map_option balance (find (byTelegramId t) (usersCol s)))
             \<and> snd r = [Reply MsgMarkedPaid, Send (userId w) (MsgPaid (amount w))]))
       \<and> (wstatus (withdrawalsCol s ! i) \<noteq> WPending \<longrightarrow>
            pay cfg sender (ObjId i) now s = (s, [Reply MsgNotFound]))"
  using assms
  by (simp add: pay_def findPendingWithdrawal_def updateById_def Let_def find_updateOne_tid
        option.map_comp comp_def)

theorem pay_settles_pending_only_witness:
  "isAdmin demoConfig 9 \<and> 0 < length (withdrawalsCol demoLockedStore)
   \<and> wstatus (withdrawalsCol demoLockedStore ! 0) = WPending
   \<and> withdrawalsCol (fst (pay demoConfig 9 (ObjId 0) 8 demoLockedStore)) =
       [demoWithdrawal\<lparr> wstatus := WPaid, paidAt := Some 8, paidBy := Some 9 \<rparr>]
   \<and> map_option balanceLocked
       (find (byTelegramId 1) (usersCol (fst (pay demoConfig 9 (ObjId 0) 8 demoLockedStore))))
       = Some None
   \<and> pay demoConfig 9 (ObjId 0) 9 (fst (pay demoConfig 9 (ObjId 0) 8 demoLockedStore)) =
       (fst (pay demoConfig 9 (ObjId 0) 8 demoLockedStore), [Reply MsgNotFound])"
proof -
  let ?s1 = "fst (pay demoConfig 9 (ObjId 0) 8 demoLockedStore)"
  have a: "isAdmin demoConfig 9"
    by (simp add: isAdmin_def demoConfig_def)
  have l: "0 < length (withdrawalsCol demoLockedStore)"
    by (simp add: demoLockedStore_def emptyStore_def)
  have p: "wstatus (withdrawalsCol demoLockedStore ! 0) = WPending"
    by (simp add: demoLockedStore_def emptyStore_def demoWithdrawal_def)
  have w0: "withdrawalsCol demoLockedStore = [demoWithdrawal]"
    by (simp add: demoLockedStore_def emptyStore_def)
  have u0: "find (byTelegramId 1) (usersCol demoLockedStore)
              = Some (demoUser\<lparr> balance := 0, balanceLocked := Some 100 \<rparr>)"
    by (simp add: demoLockedStore_def emptyStore_def demoUser_def newUser_def byTelegramId_def)
  have first: "withdrawalsCol ?s1 =
                 [demoWithdrawal\<lparr> wstatus := WPaid, paidAt := Some 8, paidBy := Some 9 \<rparr>]
             \<and> map_option balanceLocked (find (byTelegramId 1) (usersCol ?s1)) = Some None"
    using pay_settles_pending_only [OF a l, of 8] p w0 u0
    by (simp add: Let_def demoWithdrawal_def)
  have l1: "0 < length (withdrawalsCol ?s1)"
    using first by simp
  have np: "wstatus (withdrawalsCol ?s1 ! 0) \<noteq> WPending"
    using first by simp
  have second: "pay demoConfig 9 (ObjId 0) 9 ?s1 = (?s1, [Reply MsgNotFound])"
    using pay_settles_pending_only [OF a l1, of 9] np by blast
  show ?thesis
    using a l p first second by blast
qed

section \<open>Administrator credit\<close>

text \<open>
  C9. \<open>/admin_credit\<close> by an administrator: a target id or an amount that is not a finite
  number, and an amount of zero, are rejected with the store untouched, whatever the store
  holds (the answer does not depend on it). Any other amount, negative ones included, is
  added to the stored balance of the target and changes nothing else.
\<close>

theorem admin_credit_validation:
  assumes "isAdmin cfg sender"
  shows "admin_credit cfg sender (CreditArgs NotFinite amt note) s
           = (s, [Reply MsgTelegramIdNotNumber])
       \<and> admin_credit cfg sender (CreditArgs (Finite t) NotFinite note) s
           = (s, [Reply MsgAmountNotNumber])
       \<and> admin_credit cfg sender (CreditArgs (Finite t) (Finite 0) note) s
           = (s, [Reply MsgAmountZero])
       \<and> (a \<noteq> 0 \<longrightarrow>
            (let r = admin_credit cfg sender (CreditArgs (Finite (of_int k)) (Finite a) note) s in
               (\<forall>k'. find (byTelegramId k') (usersCol (fst r)) =
                    (if k' = k
                     then map_option (\<lambda>u. u\<lparr> balance := balance u + a \<rparr>)
                            (find (byTelegramId k') (usersCol s))
                     else find (byTelegramId k') (usersCol s)))
             \<and> pendingCol (fst r) = pendingCol s \<and> withdrawalsCol (fst r) = withdrawalsCol s
             \<and> refsCol (fst r) = refsCol s))"
proof -
  have q: "(\<lambda>u. telegramId u = k) = byTelegramId k"
    by (rule ext) (simp add: byTelegramId_def)
  show ?thesis
    using assms
    by (auto simp: admin_credit_def q Let_def find_updateOne_tid split: option.splits)
qed

theorem admin_credit_validation_witness:
  "isAdmin demoConfig 9
   \<and> admin_credit demoConfig 9 (CreditArgs (Finite 1) (Finite 0) ''bonus'') demoStore
       = (demoStore, [Reply MsgAmountZero])
   \<and> map_option balance (find (byTelegramId 1)
        (usersCol (fst (admin_credit demoConfig 9
                          (CreditArgs (Finite (of_int 1)) (Finite (- 30)) ''bonus'') demoStore))))
       = Some 70"
proof -
  have a: "isAdmin demoConfig 9"
    by (simp add: isAdmin_def demoConfig_def)
  have u0: "find (byTelegramId 1) (usersCol demoStore) = Some demoUser"
    by (simp add: demoStore_def demoUser_def emptyStore_def newUser_def byTelegramId_def)
  have b: "balance demoUser = 100"
    by (simp add: demoUser_def)
  show ?thesis
    using admin_credit_validation [OF a, of _ "''bonus''" demoStore 1 "- 30" 1] a u0 b
    by (simp add: Let_def)
qed

section \<open>Drafting a withdrawal and cancelling it\<close>

text \<open>
  C4, as the code has it. For a stored account whose locked balance is not positive, whose
  balance is at least \<open>MIN_WITHDRAWAL\<close> and whose payout-target dialogue is not open,
  \<open>/withdraw\<close> followed by a text that reads "cancel" (any case, surrounding blanks
  ignored) restores the balance to exactly what it was, removes \<open>balanceLocked\<close> and
  closes the withdrawal dialogue; the support flag is left as it was, so the account is
  idle afterwards when no support message was awaited.
\<close>

theorem draft_cancel_roundtrip:
  assumes "find (byTelegramId sender) (usersCol s) = Some u"
      and "\<not> 0 < orZero (balanceLocked u)"
      and "MIN_WITHDRAWAL cfg \<le> balance u"
      and "\<not> awaitingUpiSetup u"
      and "toLowerCase (trim raw) = ''cancel''"
  shows "\<exists>u'. find (byTelegramId sender)
               (usersCol (fst (textHandler cfg sender raw code' now'
                                 (fst (withdrawCmd cfg sender code now s))))) = Some u'
            \<and> balance u' = balance u \<and> balanceLocked u' = None
            \<and> \<not> awaitingWithdrawUPI u' \<and> \<not> awaitingWithdrawUPIConfirm u'
            \<and> draftWithdrawUPI u' = None \<and> \<not> awaitingUpiSetup u'
            \<and> awaitingSupportMessage u' = awaitingSupportMessage u"
proof -
  let ?s1 = "fst (withdrawCmd cfg sender code now s)"
  have tid: "telegramId u = sender"
    using assms(1) by (simp add: find_tid_Some)
  have nolock: "\<not> (case balanceLocked u of None \<Rightarrow> False | Some l \<Rightarrow> 0 < l)"
    using assms(2) by (auto simp: orZero_def split: option.splits)
  obtain u1 where u1: "find (byTelegramId sender) (usersCol ?s1) = Some u1"
    and f1: "balance u1 = 0" "balanceLocked u1 = Some (balance u)" "awaitingWithdrawUPI u1"
      "\<not> awaitingUpiSetup u1" "awaitingSupportMessage u1 = awaitingSupportMessage u"
      "telegramId u1 = sender"
    using assms(1,3,4) nolock tid
    by (simp add: withdrawCmd_def ensure_existing startWithdrawFlow_def Let_def
          find_updateOne_tid)
  show ?thesis
    using u1 f1 assms(5)
    by (simp add: textHandler_def ensure_existing textWithdraw_def Let_def
          unsetWithdrawDraft_def find_updateOne_tid orZero_def)
qed

theorem draft_cancel_roundtrip_witness:
  "find (byTelegramId 1) (usersCol demoStore) = Some demoUser
   \<and> \<not> 0 < orZero (balanceLocked demoUser)
   \<and> MIN_WITHDRAWAL demoConfig \<le> balance demoUser
   \<and> \<not> awaitingUpiSetup demoUser
   \<and> toLowerCase (trim '' Cancel'') = ''cancel''
   \<and> (\<exists>u'. find (byTelegramId 1)
               (usersCol (fst (textHandler demoConfig 1 '' Cancel'' ''ref_y'' 8
                                 (fst (withdrawCmd demoConfig 1 ''ref_x'' 7 demoStore))))) = Some u'
            \<and> balance u' = 100 \<and> balanceLocked u' = None \<and> \<not> awaitingWithdrawUPI u'
            \<and> \<not> awaitingUpiSetup u' \<and> \<not> awaitingSupportMessage u')"
proof -
  have h1: "find (byTelegramId 1) (usersCol demoStore) = Some demoUser"
    by (simp add: demoStore_def demoUser_def emptyStore_def newUser_def byTelegramId_def)
  have h2: "\<not> 0 < orZero (balanceLocked demoUser)"
    by (simp add: demoUser_def newUser_def orZero_def)
  have h3: "MIN_WITHDRAWAL demoConfig \<le> balance demoUser"
    by (simp add: demoUser_def demoConfig_def)
  have h4: "\<not> awaitingUpiSetup demoUser"
    by (simp add: demoUser_def newUser_def)
  have h5: "toLowerCase (trim '' Cancel'') = ''cancel''"
    by code_simp
  have b: "balance demoUser = 100" "\<not> awaitingSupportMessage demoUser"
    by (simp_all add: demoUser_def newUser_def)
  show ?thesis
    using draft_cancel_roundtrip [OF h1 h2 h3 h4 h5, of "''ref_y''" 8 "''ref_x''" 7]
      h1 h2 h3 h4 h5 b by auto
qed

text \<open>
  C4 as stated fails for an account with no locked balance and a balance of 100 whose
  payout-target dialogue is open: the text handler tests \<open>awaitingUpiSetup\<close> first, so
  "cancel" closes that dialogue, and the withdrawal draft keeps its 100 locked with the
  balance at 0.
\<close>

theorem draft_cancel_roundtrip_counterexample:
  "find (byTelegramId 1) (usersCol demoSetupStore) = Some (demoUser\<lparr> awaitingUpiSetup := True \<rparr>)
   \<and> \<not> 0 < orZero (balanceLocked (demoUser\<lparr> awaitingUpiSetup := True \<rparr>))
   \<and> MIN_WITHDRAWAL demoConfig \<le> balance (demoUser\<lparr> awaitingUpiSetup := True \<rparr>)
   \<and> map_option balance (find (byTelegramId 1) (usersCol demoSetupCancelled)) = Some 0
   \<and> map_option balanceLocked (find (byTelegramId 1) (usersCol demoSetupCancelled))
       = Some (Some 100)
   \<and> map_option awaitingWithdrawUPI (find (byTelegramId 1) (usersCol demoSetupCancelled))
       = Some True"
  by (simp add: demoSetupCancelled_def demoSetupStore_def demoUser_def emptyStore_def
        newUser_def byTelegramId_def demoConfig_def orZero_def withdrawCmd_def
        ensureUserProfile_def startWithdrawFlow_def truthy_def textHandler_def textUpiSetup_def
        trim_def isSpace_def toLowerCase_def isUpper_def unsetUpiSetup_def Let_def)

section \<open>Dialogue flags are independent\<close>

text \<open>
  C2, as the code has it. \<open>/setupi\<close> sets \<open>awaitingUpiSetup\<close> and clears its own draft,
  the SUPPORT button sets \<open>awaitingSupportMessage\<close>; on a stored account neither changes
  any other field of the account (balance, locked balance and the fields of a withdrawal
  draft included), any other account, or the other collections.
\<close>

theorem setup_and_support_keep_draft:
  assumes "find (byTelegramId sender) (usersCol s) = Some u"
  shows "(\<forall>t. find (byTelegramId t) (usersCol (fst (setupiCmd sender code s))) =
              (if t = sender then Some (u\<lparr> awaitingUpiSetup := True, draftUpiSetup := None \<rparr>)
               else find (byTelegramId t) (usersCol s)))
       \<and> (\<forall>t. find (byTelegramId t) (usersCol (fst (supportAction sender s))) =
              (if t = sender then Some (u\<lparr> awaitingSupportMessage := True \<rparr>)
               else find (byTelegramId t) (usersCol s)))
       \<and> withdrawalsCol (fst (setupiCmd sender code s)) = withdrawalsCol s
       \<and> withdrawalsCol (fst (supportAction sender s)) = withdrawalsCol s
       \<and> pendingCol (fst (setupiCmd sender code s)) = pendingCol s
       \<and> pendingCol (fst (supportAction sender s)) = pendingCol s"
proof -
  have tid: "telegramId u = sender"
    using assms by (simp add: find_tid_Some)
  show ?thesis
    using assms tid
    by (simp add: setupiCmd_def ensure_existing startUpiSetup_def supportAction_def
          find_updateOne_tid)
qed

theorem setup_and_support_keep_draft_witness:
  "find (byTelegramId 1) (usersCol demoLockedStore)
     = Some (demoUser\<lparr> balance := 0, balanceLocked := Some 100 \<rparr>)
   \<and> find (byTelegramId 1) (usersCol (fst (setupiCmd 1 ''ref_x'' demoLockedStore)))
     = Some (demoUser\<lparr> balance := 0, balanceLocked := Some 100, awaitingUpiSetup := True,
                       draftUpiSetup := None \<rparr>)
   \<and> find (byTelegramId 1) (usersCol (fst (supportAction 1 demoLockedStore)))
     = Some (demoUser\<lparr> balance := 0, balanceLocked := Some 100,
                       awaitingSupportMessage := True \<rparr>)"
proof -
  have h: "find (byTelegramId 1) (usersCol demoLockedStore)
             = Some (demoUser\<lparr> balance := 0, balanceLocked := Some 100 \<rparr>)"
    by (simp add: demoLockedStore_def emptyStore_def demoUser_def newUser_def byTelegramId_def)
  show ?thesis
    using setup_and_support_keep_draft [OF h, of "''ref_x''"] h by simp
qed

text \<open>
  C2 as stated fails: after \<open>/withdraw\<close> on a balance of 100, \<open>/setupi\<close> (and likewise
  the SUPPORT button) leaves both dialogue flags set while the 100 stay locked.
\<close>

theorem single_intent_counterexample:
  "map_option awaitingUpiSetup (find (byTelegramId 1) (usersCol demoDraftThenSetup)) = Some True
   \<and> map_option awaitingWithdrawUPI (find (byTelegramId 1) (usersCol demoDraftThenSetup))
       = Some True
   \<and> map_option balanceLocked (find (byTelegramId 1) (usersCol demoDraftThenSetup))
       = Some (Some 100)
   \<and> map_option balance (find (byTelegramId 1) (usersCol demoDraftThenSetup)) = Some 0
   \<and> map_option awaitingSupportMessage (find (byTelegramId 1) (usersCol demoDraftThenSupport))
       = Some True
   \<and> map_option awaitingWithdrawUPI (find (byTelegramId 1) (usersCol demoDraftThenSupport))
       = Some True
   \<and> map_option balanceLocked (find (byTelegramId 1) (usersCol demoDraftThenSupport))
       = Some (Some 100)"
  by (simp add: demoDraftThenSetup_def demoDraftThenSupport_def demoStore_def demoUser_def
        emptyStore_def newUser_def byTelegramId_def demoConfig_def withdrawCmd_def
        ensureUserProfile_def startWithdrawFlow_def truthy_def setupiCmd_def startUpiSetup_def
        supportAction_def Let_def)

section \<open>The confirmation loop\<close>

text \<open>What one round of the loop does to the collections and to the summary.\<close>

lemma processPending_cases:
  assumes "processPending cfg now (i, p) (s, sm, outs) = (s', sm', outs')"
  shows "(s' = s \<and> sm' = sm \<and> outs' = outs)
       \<or> (\<exists>why. s' = markInvalid i why s \<and> sm' = sm\<lparr>invalidated := invalidated sm @ [i]\<rparr>
             \<and> outs' = outs)
       \<or> (referredId p \<noteq> referrerId p
           \<and> s' = markInvalid i no_referrer_record (creditReferrer cfg (referrerId p) s)
           \<and> sm' = sm\<lparr>invalidated := invalidated sm @ [i]\<rparr>)
       \<or> (referredId p \<noteq> referrerId p
           \<and> usersCol s' = usersCol (creditReferrer cfg (referrerId p) s)
           \<and> pendingCol s' = updateById i
                 (\<lambda>d. d\<lparr> status := PConfirmed, confirmedAt := Some now \<rparr>) (pendingCol s)
           \<and> withdrawalsCol s' = withdrawalsCol s
           \<and> sm' = sm\<lparr>confirmed := confirmed sm @ [i]\<rparr>)"
  using assms
  by (auto simp: processPending_def creditReferrer_def split: if_splits option.splits)

lemma processPending_shape:
  assumes "processPending cfg now (i, p) (s, sm, outs) = (s', sm', outs')"
  shows "(pendingCol s' = pendingCol s \<and> usersCol s' = usersCol s)
       \<or> (\<exists>f. pendingCol s' = updateById i f (pendingCol s)
             \<and> (\<forall>d. status (f d) \<noteq> PPending) \<and> (\<forall>d. referredId (f d) = referredId d))"
    and "withdrawalsCol s' = withdrawalsCol s"
    and "(confirmed sm' = confirmed sm \<and> usersCol s' = usersCol s \<and> refsCol s' = refsCol s
           \<and> outs' = outs
           \<and> (invalidated sm' = invalidated sm @ [i] \<or> invalidated sm' = invalidated sm))
         \<or> (referredId p \<noteq> referrerId p
           \<and> usersCol s' = usersCol (creditReferrer cfg (referrerId p) s)
           \<and> (confirmed sm' = confirmed sm @ [i] \<and> invalidated sm' = invalidated sm
               \<or> confirmed sm' = confirmed sm \<and> invalidated sm' = invalidated sm @ [i]))"
proof -
  from processPending_cases [OF assms]
  consider (kept) "s' = s" "sm' = sm" "outs' = outs"
    | (invalid) why where "s' = markInvalid i why s"
        "sm' = sm\<lparr>invalidated := invalidated sm @ [i]\<rparr>" "outs' = outs"
    | (credited_invalid) "referredId p \<noteq> referrerId p"
        "s' = markInvalid i no_referrer_record (creditReferrer cfg (referrerId p) s)"
        "sm' = sm\<lparr>invalidated := invalidated sm @ [i]\<rparr>"
    | (credited_confirmed) "referredId p \<noteq> referrerId p"
        "usersCol s' = usersCol (creditReferrer cfg (referrerId p) s)"
        "pendingCol s' = updateById i
           (\<lambda>d. d\<lparr> status := PConfirmed, confirmedAt := Some now \<rparr>) (pendingCol s)"
        "withdrawalsCol s' = withdrawalsCol s"
        "sm' = sm\<lparr>confirmed := confirmed sm @ [i]\<rparr>"
    by blast
  then have "((pendingCol s' = pendingCol s \<and> usersCol s' = usersCol s)
       \<or> (\<exists>f. pendingCol s' = updateById i f (pendingCol s)
             \<and> (\<forall>d. status (f d) \<noteq> PPending) \<and> (\<forall>d. referredId (f d) = referredId d)))
    \<and> withdrawalsCol s' = withdrawalsCol s
    \<and> ((confirmed sm' = confirmed sm \<and> usersCol s' = usersCol s \<and> refsCol s' = refsCol s
           \<and> outs' = outs
           \<and> (invalidated sm' = invalidated sm @ [i] \<or> invalidated sm' = invalidated sm))
         \<or> (referredId p \<noteq> referrerId p
           \<and> usersCol s' = usersCol (creditReferrer cfg (referrerId p) s)
           \<and> (confirmed sm' = confirmed sm @ [i] \<and> invalidated sm' = invalidated sm
               \<or> confirmed sm' = confirmed sm \<and> invalidated sm' = invalidated sm @ [i])))"
  proof cases
    case kept
    then show ?thesis by simp
  next
    case invalid
    have "\<exists>f. pendingCol s' = updateById i f (pendingCol s)
             \<and> (\<forall>d. status (f d) \<noteq> PPending) \<and> (\<forall>d. referredId (f d) = referredId d)"
      by (rule exI [of _ "\<lambda>d. d\<lparr> status := PInvalid, reason := Some why \<rparr>"])
         (simp add: invalid(1) markInvalid_def)
    then show ?thesis
      by (simp add: invalid markInvalid_def)
  next
    case credited_invalid
    have "\<exists>f. pendingCol s' = updateById i f (pendingCol s)
             \<and> (\<forall>d. status (f d) \<noteq> PPending) \<and> (\<forall>d. referredId (f d) = referredId d)"
      by (rule exI [of _ "\<lambda>d. d\<lparr> status := PInvalid, reason := Some no_referrer_record \<rparr>"])
         (simp add: credited_invalid(2) markInvalid_def creditReferrer_def)
    then show ?thesis
      using credited_invalid(1) by (simp add: credited_invalid(2,3) markInvalid_def creditReferrer_def)
  next
    case credited_confirmed
    have "\<exists>f. pendingCol s' = updateById i f (pendingCol s)
             \<and> (\<forall>d. status (f d) \<noteq> PPending) \<and> (\<forall>d. referredId (f d) = referredId d)"
      by (rule exI [of _ "\<lambda>d. d\<lparr> status := PConfirmed, confirmedAt := Some now \<rparr>"])
         (simp add: credited_confirmed(3))
    then show ?thesis
      using credited_confirmed(1,2,4) by (simp add: credited_confirmed(5))
  qed
  then show "(pendingCol s' = pendingCol s \<and> usersCol s' = usersCol s)
       \<or> (\<exists>f. pendingCol s' = updateById i f (pendingCol s)
             \<and> (\<forall>d. status (f d) \<noteq> PPending) \<and> (\<forall>d. referredId (f d) = referredId d))"
    and "withdrawalsCol s' = withdrawalsCol s"
    and "(confirmed sm' = confirmed sm \<and> usersCol s' = usersCol s \<and> refsCol s' = refsCol s
           \<and> outs' = outs
           \<and> (invalidated sm' = invalidated sm @ [i] \<or> invalidated sm' = invalidated sm))
         \<or> (referredId p \<noteq> referrerId p
           \<and> usersCol s' = usersCol (creditReferrer cfg (referrerId p) s)
           \<and> (confirmed sm' = confirmed sm @ [i] \<and> invalidated sm' = invalidated sm
               \<or> confirmed sm' = confirmed sm \<and> invalidated sm' = invalidated sm @ [i]))"
    by blast+
qed

lemma processPending_pending:
  assumes "processPending cfg now (i, p) (s, sm, outs) = (s', sm', outs')"
  shows "length (pendingCol s') = length (pendingCol s)"
    and "map referredId (pendingCol s') = map referredId (pendingCol s)"
    and "j < length (pendingCol s) \<Longrightarrow> j \<noteq> i \<Longrightarrow> pendingCol s' ! j = pendingCol s ! j"
    and "usersCol s' \<noteq> usersCol s \<Longrightarrow> i < length (pendingCol s)
           \<Longrightarrow> status (pendingCol s' ! i) \<noteq> PPending"
    and "j < length (pendingCol s) \<Longrightarrow> status (pendingCol s ! j) \<noteq> PPending
           \<Longrightarrow> status (pendingCol s' ! j) \<noteq> PPending"
proof -
  from processPending_shape(1) [OF assms]
  consider (kept) "pendingCol s' = pendingCol s" "usersCol s' = usersCol s"
    | (written) f where "pendingCol s' = updateById i f (pendingCol s)"
        "\<And>d. status (f d) \<noteq> PPending" "\<And>d. referredId (f d) = referredId d"
    by blast
  then have "length (pendingCol s') = length (pendingCol s)
    \<and> map referredId (pendingCol s') = map referredId (pendingCol s)
    \<and> (j < length (pendingCol s) \<longrightarrow> j \<noteq> i \<longrightarrow> pendingCol s' ! j = pendingCol s ! j)
    \<and> (usersCol s' \<noteq> usersCol s \<longrightarrow> i < length (pendingCol s)
           \<longrightarrow> status (pendingCol s' ! i) \<noteq> PPending)
    \<and> (j < length (pendingCol s) \<longrightarrow> status (pendingCol s ! j) \<noteq> PPending
           \<longrightarrow> status (pendingCol s' ! j) \<noteq> PPending)"
  proof cases
    case kept
    then show ?thesis by simp
  next
    case written
    show ?thesis
      by (simp add: written(1) written(2) written(3) updateById_map updateById_nth)
  qed
  then show "length (pendingCol s') = length (pendingCol s)"
    and "map referredId (pendingCol s') = map referredId (pendingCol s)"
    and "j < length (pendingCol s) \<Longrightarrow> j \<noteq> i \<Longrightarrow> pendingCol s' ! j = pendingCol s ! j"
    and "usersCol s' \<noteq> usersCol s \<Longrightarrow> i < length (pendingCol s)
           \<Longrightarrow> status (pendingCol s' ! i) \<noteq> PPending"
    and "j < length (pendingCol s) \<Longrightarrow> status (pendingCol s ! j) \<noteq> PPending
           \<Longrightarrow> status (pendingCol s' ! j) \<noteq> PPending"
    by simp_all
qed

lemma processPending_users:
  assumes "processPending cfg now ip (s, sm, outs) = (s', sm', outs')"
  shows "withdrawalsCol s' = withdrawalsCol s"
    and "usersCol s' = usersCol s
         \<or> usersCol s' = updateOne (byTelegramId (referrerId (snd ip)))
              (\<lambda>u. u\<lparr> balance := balance u + REFERRAL_REWARD cfg,
                       confirmedReferrals := confirmedReferrals u + 1 \<rparr>) (usersCol s)"
proof -
  obtain i p where ip: "ip = (i, p)"
    by (cases ip)
  note sh = processPending_shape(2,3) [OF assms [unfolded ip]]
  show "withdrawalsCol s' = withdrawalsCol s"
    using sh(1) .
  show "usersCol s' = usersCol s
         \<or> usersCol s' = updateOne (byTelegramId (referrerId (snd ip)))
              (\<lambda>u. u\<lparr> balance := balance u + REFERRAL_REWARD cfg,
                       confirmedReferrals := confirmedReferrals u + 1 \<rparr>) (usersCol s)"
    using sh(2) by (auto simp: ip creditReferrer_def)
qed

lemma confirmLoop_pending:
  assumes "confirmLoop cfg now rest (s, sm, outs) = (s', sm', outs')"
  shows "length (pendingCol s') = length (pendingCol s)
       \<and> map referredId (pendingCol s') = map referredId (pendingCol s)
       \<and> withdrawalsCol s' = withdrawalsCol s
       \<and> (\<forall>j < length (pendingCol s).
            (status (pendingCol s ! j) \<noteq> PPending \<longrightarrow> status (pendingCol s' ! j) \<noteq> PPending)
          \<and> (j \<notin> fst ` set rest \<longrightarrow> pendingCol s' ! j = pendingCol s ! j))"
  using assms
proof (induction rest arbitrary: s sm outs)
  case Nil
  then show ?case by simp
next
  case (Cons ip rest)
  obtain i p where ip: "ip = (i, p)"
    by (cases ip)
  obtain s1 sm1 outs1 where one: "processPending cfg now (i, p) (s, sm, outs) = (s1, sm1, outs1)"
    by (metis prod_cases3)
  have loop: "confirmLoop cfg now rest (s1, sm1, outs1) = (s', sm', outs')"
    using Cons.prems by (simp add: ip one)
  note ih = Cons.IH [OF loop]
  note pp = processPending_pending [OF one]
  have w: "withdrawalsCol s1 = withdrawalsCol s"
    using processPending_shape(2) [OF one] .
  show ?case
  proof (intro conjI allI impI)
    show "length (pendingCol s') = length (pendingCol s)"
      using ih pp(1) by simp
    show "map referredId (pendingCol s') = map referredId (pendingCol s)"
      using ih pp(2) by simp
    show "withdrawalsCol s' = withdrawalsCol s"
      using ih w by simp
  next
    fix j assume j: "j < length (pendingCol s)" and h: "status (pendingCol s ! j) \<noteq> PPending"
    have "status (pendingCol s1 ! j) \<noteq> PPending"
      using pp(5) [OF j h] .
    then show "status (pendingCol s' ! j) \<noteq> PPending"
      using ih j pp(1) by simp
  next
    fix j assume j: "j < length (pendingCol s)" and m: "j \<notin> fst ` set (ip # rest)"
    have ji: "j \<noteq> i" and jr: "j \<notin> fst ` set rest"
      using m ip by auto
    have "pendingCol s' ! j = pendingCol s1 ! j"
      using ih j jr pp(1) by simp
    then show "pendingCol s' ! j = pendingCol s ! j"
      using pp(3) [OF j ji] by simp
  qed
qed

lemma confirmLoop_summary:
  assumes "confirmLoop cfg now rest (s, sm, outs) = (s', sm', outs')"
  shows "\<exists>cs vs. confirmed sm' = confirmed sm @ cs \<and> invalidated sm' = invalidated sm @ vs
           \<and> set cs \<subseteq> fst ` set rest \<and> set vs \<subseteq> fst ` set rest"
  using assms
proof (induction rest arbitrary: s sm outs)
  case Nil
  then show ?case by simp
next
  case (Cons ip rest)
  obtain i p where ip: "ip = (i, p)"
    by (cases ip)
  obtain s1 sm1 outs1 where one: "processPending cfg now (i, p) (s, sm, outs) = (s1, sm1, outs1)"
    by (metis prod_cases3)
  have loop: "confirmLoop cfg now rest (s1, sm1, outs1) = (s', sm', outs')"
    using Cons.prems by (simp add: ip one)
  obtain cs vs where r: "confirmed sm' = confirmed sm1 @ cs" "invalidated sm' = invalidated sm1 @ vs"
    "set cs \<subseteq> fst ` set rest" "set vs \<subseteq> fst ` set rest"
    using Cons.IH [OF loop] by blast
  from processPending_shape(3) [OF one]
  consider (none) "confirmed sm1 = confirmed sm" "invalidated sm1 = invalidated sm"
    | (inv) "confirmed sm1 = confirmed sm" "invalidated sm1 = invalidated sm @ [i]"
    | (conf) "confirmed sm1 = confirmed sm @ [i]" "invalidated sm1 = invalidated sm"
    by blast
  then show ?case
  proof cases
    case none
    show ?thesis
      by (rule exI [of _ cs], rule exI [of _ vs]) (use r none ip in auto)
  next
    case inv
    show ?thesis
      by (rule exI [of _ cs], rule exI [of _ "i # vs"]) (use r inv ip in auto)
  next
    case conf
    show ?thesis
      by (rule exI [of _ "i # cs"], rule exI [of _ vs]) (use r conf ip in auto)
  qed
qed

text \<open>The crediting rounds of a loop: their ids are among those processed, each once
  when the ids processed are distinct, and each has left status pending at the end.\<close>

lemma creditsOf_facts:
  assumes "confirmLoop cfg now rest (s, sm, outs) = (s', sm', outs')"
  shows "set (creditsOf cfg now rest (s, sm, outs)) \<subseteq> fst ` set rest"
    and "distinct (map fst rest) \<Longrightarrow> distinct (creditsOf cfg now rest (s, sm, outs))"
    and "i \<in> set (creditsOf cfg now rest (s, sm, outs)) \<Longrightarrow> i < length (pendingCol s)
           \<Longrightarrow> status (pendingCol s' ! i) \<noteq> PPending"
proof -
  have "set (creditsOf cfg now rest (s, sm, outs)) \<subseteq> fst ` set rest
      \<and> (distinct (map fst rest) \<longrightarrow> distinct (creditsOf cfg now rest (s, sm, outs)))
      \<and> (i \<in> set (creditsOf cfg now rest (s, sm, outs)) \<longrightarrow> i < length (pendingCol s)
           \<longrightarrow> status (pendingCol s' ! i) \<noteq> PPending)"
    using assms
  proof (induction rest arbitrary: s sm outs)
    case Nil
    then show ?case by simp
  next
    case (Cons jq rest)
    obtain j q where jq: "jq = (j, q)"
      by (cases jq)
    obtain s1 sm1 outs1 where one: "processPending cfg now (j, q) (s, sm, outs) = (s1, sm1, outs1)"
      by (metis prod_cases3)
    have loop: "confirmLoop cfg now rest (s1, sm1, outs1) = (s', sm', outs')"
      using Cons.prems by (simp add: jq one)
    note ih = Cons.IH [OF loop]
    note pp = processPending_pending [OF one]
    note lp = confirmLoop_pending [OF loop]
    let ?hd = "if usersCol s1 \<noteq> usersCol s then [j] else []"
    have c: "creditsOf cfg now (jq # rest) (s, sm, outs)
               = ?hd @ creditsOf cfg now rest (s1, sm1, outs1)"
      by (simp add: jq one)
    have a: "set (creditsOf cfg now (jq # rest) (s, sm, outs)) \<subseteq> fst ` set (jq # rest)"
      using ih unfolding c by (auto simp: jq)
    have b: "distinct (creditsOf cfg now (jq # rest) (s, sm, outs))"
      if "distinct (map fst (jq # rest))"
      using ih that unfolding c by (auto simp: jq)
    have d: "status (pendingCol s' ! i) \<noteq> PPending"
      if m: "i \<in> set (creditsOf cfg now (jq # rest) (s, sm, outs))"
        and len: "i < length (pendingCol s)"
    proof (cases "i \<in> set (creditsOf cfg now rest (s1, sm1, outs1))")
      case True
      then show ?thesis
        using ih len pp(1) by simp
    next
      case False
      then have "i = j" "usersCol s1 \<noteq> usersCol s"
        using m unfolding c by (auto split: if_splits)
      then have "status (pendingCol s1 ! i) \<noteq> PPending"
        using pp(4) len by simp
      then show ?thesis
        using lp len pp(1) by simp
    qed
    show ?case
      using a b d by blast
  qed
  then show "set (creditsOf cfg now rest (s, sm, outs)) \<subseteq> fst ` set rest"
    and "distinct (map fst rest) \<Longrightarrow> distinct (creditsOf cfg now rest (s, sm, outs))"
    and "i \<in> set (creditsOf cfg now rest (s, sm, outs)) \<Longrightarrow> i < length (pendingCol s)
           \<Longrightarrow> status (pendingCol s' ! i) \<noteq> PPending"
    by simp_all
qed

lemma selectPending_iff:
  "(i, p) \<in> set (selectPending cfg force now ps) \<longleftrightarrow>
     i < length ps \<and> ps ! i = p \<and> status p = PPending \<and> (force \<or> createdAt p \<le> cutoff cfg now)"
  by (simp add: selectPending_def findAll_iff)

lemma selectPending_distinct: "distinct (map fst (selectPending cfg force now ps))"
  by (simp add: selectPending_def findAll_distinct)

lemma confirmLoop_self_referral:
  assumes "(i, p) \<in> set rest" and "referredId p = referrerId p"
      and "distinct (map fst rest)" and "i < length (pendingCol s)"
      and "confirmLoop cfg now rest (s, sm, outs) = (s', sm', outs')"
  shows "status (pendingCol s' ! i) = PInvalid \<and> reason (pendingCol s' ! i) = Some self_referral
       \<and> i \<in> set (invalidated sm') \<and> (i \<notin> set (confirmed sm) \<longrightarrow> i \<notin> set (confirmed sm'))"
  using assms
proof (induction rest arbitrary: s sm outs)
  case Nil
  then show ?case by simp
next
  case (Cons jq rest)
  obtain j q where jq: "jq = (j, q)"
    by (cases jq)
  obtain s1 sm1 outs1 where one: "processPending cfg now (j, q) (s, sm, outs) = (s1, sm1, outs1)"
    by (metis prod_cases3)
  have loop: "confirmLoop cfg now rest (s1, sm1, outs1) = (s', sm', outs')"
    using Cons.prems(5) by (simp add: jq one)
  have len: "i < length (pendingCol s1)"
    using processPending_pending(1) [OF one] Cons.prems(4) by simp
  have d: "distinct (map fst rest)" and jr: "j \<notin> fst ` set rest"
    using Cons.prems(3) jq by auto
  show ?case
  proof (cases "(i, p) \<in> set rest")
    case True
    then have ij: "i \<noteq> j"
      using jr by force
    have c1: "i \<notin> set (confirmed sm) \<longrightarrow> i \<notin> set (confirmed sm1)"
      using processPending_shape(3) [OF one] ij by auto
    show ?thesis
      using Cons.IH [OF True Cons.prems(2) d len loop] c1 by blast
  next
    case False
    then have hd: "j = i" "q = p"
      using Cons.prems(1) jq by auto
    have s1: "s1 = markInvalid i self_referral s" and sm1: "sm1 = sm\<lparr>invalidated := invalidated sm @ [i]\<rparr>"
      using one Cons.prems(2) by (simp_all add: processPending_def hd)
    have here: "status (pendingCol s1 ! i) = PInvalid" "reason (pendingCol s1 ! i) = Some self_referral"
      using Cons.prems(4) by (simp_all add: s1 markInvalid_def updateById_nth)
    have ir: "i \<notin> fst ` set rest"
      using jr hd by simp
    have same: "pendingCol s' ! i = pendingCol s1 ! i"
      using confirmLoop_pending [OF loop] len ir by blast
    obtain cs vs where r: "confirmed sm' = confirmed sm1 @ cs" "invalidated sm' = invalidated sm1 @ vs"
      "set cs \<subseteq> fst ` set rest"
      using confirmLoop_summary [OF loop] by blast
    show ?thesis
      using here same r ir by (auto simp: sm1)
  qed
qed

section \<open>Self-referrals\<close>

text \<open>
  C8. A pending referral that the confirmation job selects, forced or not, and whose
  \<open>referredId\<close> equals its \<open>referrerId\<close> has status invalid with reason
  \<open>self_referral\<close> when the job returns, and is listed as invalidated and not as
  confirmed. Processing it credits nobody: accounts, confirmed referrals and the messages
  sent are as before, whatever the state it is processed in.
\<close>

theorem self_referral_invalidated:
  assumes "(i, p) \<in> set (selectPending cfg force now (pendingCol s))"
      and "referredId p = referrerId p"
  shows "(case confirmPendingReferrals cfg force now s of (s', sm', outs') \<Rightarrow>
            status (pendingCol s' ! i) = PInvalid \<and> reason (pendingCol s' ! i) = Some self_referral
            \<and> i \<in> set (invalidated sm') \<and> i \<notin> set (confirmed sm'))
       \<and> (case processPending cfg now (i, p) (s0, sm0, outs0) of (s1, sm1, outs1) \<Rightarrow>
            usersCol s1 = usersCol s0 \<and> refsCol s1 = refsCol s0 \<and> outs1 = outs0
            \<and> confirmed sm1 = confirmed sm0)"
proof -
  obtain s' sm' outs' where r: "confirmPendingReferrals cfg force now s = (s', sm', outs')"
    by (metis prod_cases3)
  have len: "i < length (pendingCol s)"
    using assms(1) by (simp add: selectPending_iff)
  have "status (pendingCol s' ! i) = PInvalid \<and> reason (pendingCol s' ! i) = Some self_referral
       \<and> i \<in> set (invalidated sm')
       \<and> (i \<notin> set (confirmed \<lparr> confirmed = [], invalidated = [] \<rparr>) \<longrightarrow> i \<notin> set (confirmed sm'))"
    using r unfolding confirmPendingReferrals_def
    by (rule confirmLoop_self_referral [OF assms(1) assms(2) selectPending_distinct len])
  then have a: "status (pendingCol s' ! i) = PInvalid \<and> reason (pendingCol s' ! i) = Some self_referral
       \<and> i \<in> set (invalidated sm') \<and> i \<notin> set (confirmed sm')"
    by simp
  have b: "processPending cfg now (i, p) (s0, sm0, outs0)
             = (markInvalid i self_referral s0, sm0\<lparr>invalidated := invalidated sm0 @ [i]\<rparr>, outs0)"
    using assms(2) by (simp add: processPending_def)
  show ?thesis
    using a by (simp add: r b markInvalid_def)
qed

theorem self_referral_invalidated_witness:
  "(0, demoSelfPending)
     \<in> set (selectPending demoConfig False 172800000 (pendingCol demoSelfStore))
   \<and> referredId demoSelfPending = referrerId demoSelfPending
   \<and> (case confirmPendingReferrals demoConfig False 172800000 demoSelfStore of
        (s', sm', outs') \<Rightarrow>
          status (pendingCol s' ! 0) = PInvalid \<and> reason (pendingCol s' ! 0) = Some self_referral
          \<and> 0 \<in> set (invalidated sm') \<and> 0 \<notin> set (confirmed sm'))"
proof -
  have h1: "(0, demoSelfPending)
              \<in> set (selectPending demoConfig False 172800000 (pendingCol demoSelfStore))"
    by (simp add: selectPending_iff demoSelfStore_def demoSelfPending_def demoPending_def
          cutoff_def demoConfig_def)
  have h2: "referredId demoSelfPending = referrerId demoSelfPending"
    by (simp add: demoSelfPending_def demoPending_def)
  show ?thesis
    by (rule conjI [OF h1 conjI [OF h2 self_referral_invalidated [OF h1 h2, THEN conjunct1]]])
qed

section \<open>Operations and the pending collection\<close>

lemma ensure_frame:
  assumes "ensureUserProfile t code s = Some (s1, u)"
  shows "pendingCol s1 = pendingCol s" "withdrawalsCol s1 = withdrawalsCol s"
    "refsCol s1 = refsCol s"
  using assms by (auto simp: ensureUserProfile_def split: option.splits if_splits)

lemma pendingCol_withdrawCmd: "pendingCol (fst (withdrawCmd cfg sender code now s)) = pendingCol s"
  by (auto simp: withdrawCmd_def startWithdrawFlow_def Let_def ensure_frame split: option.splits)

lemma pendingCol_setupiCmd: "pendingCol (fst (setupiCmd sender code s)) = pendingCol s"
  by (auto simp: setupiCmd_def startUpiSetup_def ensure_frame split: option.splits)

lemma pendingCol_profileCmd: "pendingCol (fst (profileCmd sender code s)) = pendingCol s"
  by (auto simp: profileCmd_def ensure_frame split: option.splits)

lemma pendingCol_supportAction: "pendingCol (fst (supportAction sender s)) = pendingCol s"
  by (simp add: supportAction_def)

lemma pendingCol_textHandler:
  "pendingCol (fst (textHandler cfg sender raw code now s)) = pendingCol s"
  by (auto simp: textHandler_def textUpiSetup_def textWithdraw_def textSupport_def Let_def
        ensure_frame split: option.splits)

lemma pendingCol_pay: "pendingCol (fst (pay cfg sender a now s)) = pendingCol s"
  by (auto simp: pay_def split: idarg.splits option.splits)

lemma pendingCol_cancelwithdraw:
  "pendingCol (fst (cancelwithdraw cfg sender a now s)) = pendingCol s"
  by (auto simp: cancelwithdraw_def split: idarg.splits option.splits)

lemma pendingCol_admin_credit: "pendingCol (fst (admin_credit cfg sender args s)) = pendingCol s"
  by (auto simp: admin_credit_def split: creditargs.splits jsnum.splits option.splits)

lemma pendingCol_startCmd:
  "pendingCol (fst (startCmd sender payload code now s)) = pendingCol s
   \<or> (\<exists>d. pendingCol (fst (startCmd sender payload code now s)) = pendingCol s @ [d]
          \<and> find (\<lambda>p. referredId p = referredId d) (pendingCol s) = None)"
  by (auto simp: startCmd_def ensure_frame split: option.splits)

lemma fst_adminConfirmCmd:
  "fst (adminConfirmCmd cfg sender force now s) =
     (if isAdmin cfg sender then fst (confirmPendingReferrals cfg force now s) else s)"
  by (simp add: adminConfirmCmd_def split: prod.splits)

lemma fst_adminConfirmAction:
  "fst (adminConfirmAction cfg sender now s) =
     (if isAdmin cfg sender then fst (confirmPendingReferrals cfg True now s) else s)"
  by (simp add: adminConfirmAction_def split: prod.splits)

lemma fst_sweep: "fst (sweep cfg now s) = fst (confirmPendingReferrals cfg False now s)"
  by (simp add: sweep_def split: prod.splits)

text \<open>What an operation does to the pending collection: nothing, one insert for a
  party that has no document there, or one confirmation pass.\<close>

lemma step_pending_cases:
  "(pendingCol (fst (step cfg x s)) = pendingCol s \<and> creditedBy cfg x s = [])
   \<or> (\<exists>d. pendingCol (fst (step cfg x s)) = pendingCol s @ [d]
          \<and> find (\<lambda>p. referredId p = referredId d) (pendingCol s) = None
          \<and> creditedBy cfg x s = [])
   \<or> (\<exists>force now. pendingCol (fst (step cfg x s))
                      = pendingCol (fst (confirmPendingReferrals cfg force now s))
          \<and> creditedBy cfg x s = passCredits cfg force now s)"
proof (cases x)
  case (OpStart sender payload code now)
  then show ?thesis
    using pendingCol_startCmd [of sender payload code now s] by auto
next
  case (OpAdminConfirm sender force now)
  show ?thesis
  proof (cases "isAdmin cfg sender")
    case True
    then have "pendingCol (fst (step cfg x s))
                 = pendingCol (fst (confirmPendingReferrals cfg force now s))
             \<and> creditedBy cfg x s = passCredits cfg force now s"
      by (simp add: OpAdminConfirm fst_adminConfirmCmd)
    then show ?thesis by blast
  next
    case False
    then show ?thesis by (simp add: OpAdminConfirm fst_adminConfirmCmd)
  qed
next
  case (OpAdminConfirmButton sender now)
  show ?thesis
  proof (cases "isAdmin cfg sender")
    case True
    then have "pendingCol (fst (step cfg x s))
                 = pendingCol (fst (confirmPendingReferrals cfg True now s))
             \<and> creditedBy cfg x s = passCredits cfg True now s"
      by (simp add: OpAdminConfirmButton fst_adminConfirmAction)
    then show ?thesis by blast
  next
    case False
    then show ?thesis by (simp add: OpAdminConfirmButton fst_adminConfirmAction)
  qed
next
  case (OpSweep now)
  then have "pendingCol (fst (step cfg x s))
               = pendingCol (fst (confirmPendingReferrals cfg False now s))
           \<and> creditedBy cfg x s = passCredits cfg False now s"
    by (simp add: fst_sweep)
  then show ?thesis by blast
qed (simp_all add: pendingCol_withdrawCmd pendingCol_setupiCmd pendingCol_profileCmd
       pendingCol_supportAction pendingCol_textHandler pendingCol_pay pendingCol_cancelwithdraw
       pendingCol_admin_credit)

text \<open>A pass keeps the length of the pending collection and the \<open>referredId\<close> of each
  document, never returns a document to status pending, and credits for each \<open>_id\<close> at
  most once; the documents it credits for were pending before it and are not after it.\<close>

lemma pass_pending:
  assumes "confirmPendingReferrals cfg force now s = (s', sm', outs')"
  shows "length (pendingCol s') = length (pendingCol s)"
    and "j < length (pendingCol s) \<Longrightarrow> status (pendingCol s ! j) \<noteq> PPending
           \<Longrightarrow> status (pendingCol s' ! j) \<noteq> PPending"
    and "map referredId (pendingCol s') = map referredId (pendingCol s)"
    and "distinct (passCredits cfg force now s)"
    and "i \<in> set (passCredits cfg force now s) \<Longrightarrow>
           i < length (pendingCol s) \<and> status (pendingCol s ! i) = PPending
           \<and> status (pendingCol s' ! i) \<noteq> PPending"
proof -
  let ?sel = "selectPending cfg force now (pendingCol s)"
  have loop: "confirmLoop cfg now ?sel (s, \<lparr> confirmed = [], invalidated = [] \<rparr>, []) = (s', sm', outs')"
    using assms by (simp add: confirmPendingReferrals_def)
  note lp = confirmLoop_pending [OF loop]
  note cr = creditsOf_facts [OF loop]
  show "length (pendingCol s') = length (pendingCol s)"
    using lp by simp
  show "map referredId (pendingCol s') = map referredId (pendingCol s)"
    using lp by simp
  show "j < length (pendingCol s) \<Longrightarrow> status (pendingCol s ! j) \<noteq> PPending
           \<Longrightarrow> status (pendingCol s' ! j) \<noteq> PPending"
    using lp by simp
  show "distinct (passCredits cfg force now s)"
    unfolding passCredits_def by (rule cr(2)) (rule selectPending_distinct)
  show "i \<in> set (passCredits cfg force now s) \<Longrightarrow>
           i < length (pendingCol s) \<and> status (pendingCol s ! i) = PPending
           \<and> status (pendingCol s' ! i) \<noteq> PPending"
  proof -
    assume m: "i \<in> set (passCredits cfg force now s)"
    then have "i \<in> fst ` set ?sel"
      using cr(1) unfolding passCredits_def by blast
    then obtain p where "(i, p) \<in> set ?sel"
      by force
    then have a: "i < length (pendingCol s)" "status (pendingCol s ! i) = PPending"
      by (simp_all add: selectPending_iff)
    have "status (pendingCol s' ! i) \<noteq> PPending"
      using cr(3) [of i] m a(1) unfolding passCredits_def by blast
    then show ?thesis
      using a by simp
  qed
qed

text \<open>A document that has left status pending stays so under every operation, and
  the documents an operation credits for were pending before it and are not after it.\<close>

lemma step_handled:
  assumes "j < length (pendingCol s)" and "status (pendingCol s ! j) \<noteq> PPending"
  shows "j < length (pendingCol (fst (step cfg x s)))
       \<and> status (pendingCol (fst (step cfg x s)) ! j) \<noteq> PPending"
proof -
  from step_pending_cases [of cfg x s]
  consider (same) "pendingCol (fst (step cfg x s)) = pendingCol s"
    | (ins) d where "pendingCol (fst (step cfg x s)) = pendingCol s @ [d]"
    | (pass) force now where
        "pendingCol (fst (step cfg x s)) = pendingCol (fst (confirmPendingReferrals cfg force now s))"
    by blast
  then show ?thesis
  proof cases
    case same
    then show ?thesis using assms by simp
  next
    case ins
    then show ?thesis using assms by (simp add: nth_append)
  next
    case pass
    obtain s' sm' outs' where r: "confirmPendingReferrals cfg force now s = (s', sm', outs')"
      by (metis prod_cases3)
    show ?thesis
      using pass_pending(1,2) [OF r] assms by (simp add: pass r)
  qed
qed

lemma step_credit:
  shows "distinct (creditedBy cfg x s)"
    and "i \<in> set (creditedBy cfg x s) \<Longrightarrow>
           i < length (pendingCol s) \<and> status (pendingCol s ! i) = PPending
           \<and> i < length (pendingCol (fst (step cfg x s)))
           \<and> status (pendingCol (fst (step cfg x s)) ! i) \<noteq> PPending"
proof -
  from step_pending_cases [of cfg x s]
  consider (none) "creditedBy cfg x s = []"
    | (pass) force now where
        "pendingCol (fst (step cfg x s)) = pendingCol (fst (confirmPendingReferrals cfg force now s))"
        "creditedBy cfg x s = passCredits cfg force now s"
    by blast
  then have "distinct (creditedBy cfg x s)
       \<and> (i \<in> set (creditedBy cfg x s) \<longrightarrow>
           i < length (pendingCol s) \<and> status (pendingCol s ! i) = PPending
           \<and> i < length (pendingCol (fst (step cfg x s)))
           \<and> status (pendingCol (fst (step cfg x s)) ! i) \<noteq> PPending)"
  proof cases
    case none
    then show ?thesis by simp
  next
    case pass
    obtain s' sm' outs' where r: "confirmPendingReferrals cfg force now s = (s', sm', outs')"
      by (metis prod_cases3)
    show ?thesis
      using pass_pending(4) [OF r] pass_pending(5) [OF r, of i] pass_pending(1) [OF r]
      by (auto simp: pass r)
  qed
  then show "distinct (creditedBy cfg x s)"
    and "i \<in> set (creditedBy cfg x s) \<Longrightarrow>
           i < length (pendingCol s) \<and> status (pendingCol s ! i) = PPending
           \<and> i < length (pendingCol (fst (step cfg x s)))
           \<and> status (pendingCol (fst (step cfg x s)) ! i) \<noteq> PPending"
    by simp_all
qed

lemma creditedIds_fresh:
  assumes "\<And>j. j \<in> A \<Longrightarrow> j < length (pendingCol s) \<and> status (pendingCol s ! j) \<noteq> PPending"
  shows "distinct (creditedIds cfg ops s) \<and> set (creditedIds cfg ops s) \<inter> A = {}"
  using assms
proof (induction ops arbitrary: s A)
  case Nil
  then show ?case by simp
next
  case (Cons x ops)
  let ?cs = "creditedBy cfg x s" and ?s1 = "fst (step cfg x s)"
  have handled: "\<And>j. j \<in> A \<union> set ?cs \<Longrightarrow>
                   j < length (pendingCol ?s1) \<and> status (pendingCol ?s1 ! j) \<noteq> PPending"
    using Cons.prems step_handled [of _ s cfg x] step_credit(2) [of _ cfg x s] by blast
  have ih: "distinct (creditedIds cfg ops ?s1)
          \<and> set (creditedIds cfg ops ?s1) \<inter> (A \<union> set ?cs) = {}"
    by (rule Cons.IH) (use handled in blast)
  have apart: "set ?cs \<inter> A = {}"
    using Cons.prems step_credit(2) [of _ cfg x s] by blast
  show ?case
    using ih apart step_credit(1) [of cfg x s] by auto
qed

text \<open>The increment changes the accounts exactly when the referrer has a document:
  the count of confirmed referrals of that document goes up by one.\<close>

lemma updateOne_changes:
  assumes "find q xs = Some u" and "f u \<noteq> u"
  shows "updateOne q f xs \<noteq> xs"
  using assms by (induction xs) (auto split: if_splits)

lemma creditReferrer_changes:
  "usersCol (creditReferrer cfg t s) \<noteq> usersCol s \<longleftrightarrow> find (byTelegramId t) (usersCol s) \<noteq> None"
proof (cases "find (byTelegramId t) (usersCol s)")
  case None
  then show ?thesis
    by (simp add: creditReferrer_def updateOne_none)
next
  case (Some u)
  have "u\<lparr> balance := balance u + REFERRAL_REWARD cfg,
           confirmedReferrals := confirmedReferrals u + 1 \<rparr> \<noteq> u"
  proof
    assume "u\<lparr> balance := balance u + REFERRAL_REWARD cfg,
               confirmedReferrals := confirmedReferrals u + 1 \<rparr> = u"
    then have "confirmedReferrals (u\<lparr> balance := balance u + REFERRAL_REWARD cfg,
               confirmedReferrals := confirmedReferrals u + 1 \<rparr>) = confirmedReferrals u"
      by (rule arg_cong)
    then show False by simp
  qed
  then show ?thesis
    using updateOne_changes [OF Some] by (simp add: creditReferrer_def Some)
qed

section \<open>At most one credit per pending referral\<close>

text \<open>
  C1, as the code has it. The credit is the increment of the referrer's balance and of
  its count of confirmed referrals, and a round of the loop is counted as a credit for
  its \<open>_id\<close> when it changes the accounts; what the job reports plays no part in the count.
  In any sequence of operations, each run to its end before the next starts, no \<open>_id\<close> is
  credited for twice, whatever passes of the confirmation job the sequence holds, whatever
  else happens between them, and whichever kind of result \<open>findOneAndUpdate\<close> returns: a
  pass only selects documents whose status is pending, and a round that credits moves its
  document out of that status. A round credits exactly when the two parties differ and
  both have an account. Then the referrer's balance is incremented by the reward, and the
  document is written by \<open>_id\<close> alone: to confirmed, with the \<open>_id\<close> reported as
  confirmed, when the driver returns the result metadata; to invalid with reason
  \<open>no_referrer_record\<close>, with the \<open>_id\<close> reported as invalidated, when the driver returns
  the document. A round that does not credit leaves the accounts and the list of
  confirmed ids as they were.
\<close>

theorem sequential_credit_at_most_once:
  "distinct (creditedIds cfg ops s)
   \<and> (case processPending cfg now (i, p) (s0, sm0, outs0) of (s1, sm1, outs1) \<Rightarrow>
        (usersCol s1 \<noteq> usersCol s0) =
          (referredId p \<noteq> referrerId p
           \<and> find (byTelegramId (referredId p)) (usersCol s0) \<noteq> None
           \<and> find (byTelegramId (referrerId p)) (usersCol s0) \<noteq> None)
        \<and> ((usersCol s1 = usersCol s0 \<and> confirmed sm1 = confirmed sm0)
           \<or> (usersCol s1 = updateOne (byTelegramId (referrerId p))
                 (\<lambda>u. u\<lparr> balance := balance u + REFERRAL_REWARD cfg,
                          confirmedReferrals := confirmedReferrals u + 1 \<rparr>) (usersCol s0)
              \<and> pendingCol s1 = updateById i
                  (if resultMetadata cfg
                   then (\<lambda>d. d\<lparr> status := PConfirmed, confirmedAt := Some now \<rparr>)
                   else (\<lambda>d. d\<lparr> status := PInvalid, reason := Some no_referrer_record \<rparr>))
                  (pendingCol s0)
              \<and> confirmed sm1 = (if resultMetadata cfg then confirmed sm0 @ [i] else confirmed sm0)
              \<and> invalidated sm1
                  = (if resultMetadata cfg then invalidated sm0 else invalidated sm0 @ [i]))))"
proof -
  have a: "distinct (creditedIds cfg ops s)"
    using creditedIds_fresh [of "{}" s cfg ops] by simp
  have c: "usersCol (creditReferrer cfg (referrerId p) s0) \<noteq> usersCol s0
             \<longleftrightarrow> find (byTelegramId (referrerId p)) (usersCol s0) \<noteq> None"
    by (rule creditReferrer_changes)
  have u: "usersCol (creditReferrer cfg (referrerId p) s0)
             = updateOne (byTelegramId (referrerId p))
                 (\<lambda>u. u\<lparr> balance := balance u + REFERRAL_REWARD cfg,
                          confirmedReferrals := confirmedReferrals u + 1 \<rparr>) (usersCol s0)"
    by (simp add: creditReferrer_def)
  have p: "pendingCol (creditReferrer cfg (referrerId p) s0) = pendingCol s0"
    by (simp add: creditReferrer_def)
  have b: "case processPending cfg now (i, p) (s0, sm0, outs0) of (s1, sm1, outs1) \<Rightarrow>
        (usersCol s1 \<noteq> usersCol s0) =
          (referredId p \<noteq> referrerId p
           \<and> find (byTelegramId (referredId p)) (usersCol s0) \<noteq> None
           \<and> find (byTelegramId (referrerId p)) (usersCol s0) \<noteq> None)
        \<and> ((usersCol s1 = usersCol s0 \<and> confirmed sm1 = confirmed sm0)
           \<or> (usersCol s1 = updateOne (byTelegramId (referrerId p))
                 (\<lambda>u. u\<lparr> balance := balance u + REFERRAL_REWARD cfg,
                          confirmedReferrals := confirmedReferrals u + 1 \<rparr>) (usersCol s0)
              \<and> pendingCol s1 = updateById i
                  (if resultMetadata cfg
                   then (\<lambda>d. d\<lparr> status := PConfirmed, confirmedAt := Some now \<rparr>)
                   else (\<lambda>d. d\<lparr> status := PInvalid, reason := Some no_referrer_record \<rparr>))
                  (pendingCol s0)
              \<and> confirmed sm1 = (if resultMetadata cfg then confirmed sm0 @ [i] else confirmed sm0)
              \<and> invalidated sm1
                  = (if resultMetadata cfg then invalidated sm0 else invalidated sm0 @ [i])))"
  proof (cases "referredId p \<noteq> referrerId p
           \<and> find (byTelegramId (referredId p)) (usersCol s0) \<noteq> None
           \<and> find (byTelegramId (referrerId p)) (usersCol s0) \<noteq> None")
    case True
    then obtain r d where f: "referredId p \<noteq> referrerId p"
        "find (byTelegramId (referredId p)) (usersCol s0) = Some d"
        "find (byTelegramId (referrerId p)) (usersCol s0) = Some r"
      by blast
    have ch: "usersCol (creditReferrer cfg (referrerId p) s0) \<noteq> usersCol s0"
      using c f(3) by simp
    show ?thesis
    proof (cases "resultMetadata cfg")
      case True
      have e: "processPending cfg now (i, p) (s0, sm0, outs0) =
         ((creditReferrer cfg (referrerId p) s0)
             \<lparr>pendingCol := updateById i
                (\<lambda>d. d\<lparr> status := PConfirmed, confirmedAt := Some now \<rparr>) (pendingCol s0),
              refsCol := refsCol s0 @
                [\<lparr> refReferrerId = referrerId p, refReferredId = referredId p,
                   refCode = usedCode p, refConfirmedAt = now \<rparr>]\<rparr>,
          sm0\<lparr>confirmed := confirmed sm0 @ [i]\<rparr>,
          outs0 @ [Send (referrerId p)
                     (MsgReferralConfirmed (REFERRAL_REWARD cfg) (balance r + REFERRAL_REWARD cfg))])"
        using f True by (simp add: processPending_def)
      show ?thesis
        unfolding e using ch f True by (simp add: u)
    next
      case False
      have e: "processPending cfg now (i, p) (s0, sm0, outs0) =
         (markInvalid i no_referrer_record (creditReferrer cfg (referrerId p) s0),
          sm0\<lparr>invalidated := invalidated sm0 @ [i]\<rparr>, outs0)"
        using f False by (simp add: processPending_def)
      show ?thesis
        unfolding e using ch f False by (simp add: u p markInvalid_def)
    qed
  next
    case False
    obtain s1 sm1 outs1 where one: "processPending cfg now (i, p) (s0, sm0, outs0) = (s1, sm1, outs1)"
      by (metis prod_cases3)
    have "usersCol s1 = usersCol s0 \<and> confirmed sm1 = confirmed sm0"
      using one False
      by (auto simp: processPending_def markInvalid_def split: if_splits option.splits)
    then show ?thesis
      using False by (simp add: one)
  qed
  show ?thesis
    by (rule conjI [OF a b])
qed

theorem sequential_credit_at_most_once_witness:
  "creditedIds demoConfig [OpAdminConfirm 9 True 8, OpSweep 172800000] demoRefStore = [0]
   \<and> creditedIds demoConfigDoc [OpAdminConfirm 9 True 8, OpSweep 172800000] demoRefStore = [0]
   \<and> distinct (creditedIds demoConfig [OpAdminConfirm 9 True 8, OpSweep 172800000] demoRefStore)
   \<and> distinct (creditedIds demoConfigDoc [OpAdminConfirm 9 True 8, OpSweep 172800000]
        demoRefStore)"
proof -
  have e: "creditedIds demoConfig [OpAdminConfirm 9 True 8, OpSweep 172800000] demoRefStore = [0]"
    by code_simp
  have f: "creditedIds demoConfigDoc [OpAdminConfirm 9 True 8, OpSweep 172800000] demoRefStore
             = [0]"
    by code_simp
  show ?thesis
    using sequential_credit_at_most_once [THEN conjunct1, of demoConfig
        "[OpAdminConfirm 9 True 8, OpSweep 172800000]" demoRefStore]
      sequential_credit_at_most_once [THEN conjunct1, of demoConfigDoc
        "[OpAdminConfirm 9 True 8, OpSweep 172800000]" demoRefStore] e f
    by simp
qed

text \<open>
  C1 as stated fails: the change of status is an update by \<open>_id\<close> alone, not one
  conditioned on the status still being pending, and the credit comes before it. Of two
  passes that both read the pending document 0 before either processed it, the second
  finds the document already handled in the store and yet credits the referrer again
  (balance 100, reward 0.5, balance 101 after the two passes). This is so with either kind
  of driver: when the result metadata is returned the \<open>_id\<close> is reported as confirmed by
  both passes, when the document is returned it is reported as invalidated by both, and
  the balance is 101 all the same.
\<close>

theorem at_most_one_credit_counterexample:
  "demoSelected = [(0, demoPending)]
   \<and> map_option balance (find (byTelegramId 1) (usersCol demoRefStore)) = Some 100
   \<and> creditsOf demoConfig 8 demoSelected (demoRefStore, noSummary, []) = [0]
   \<and> confirmed (fst (snd demoPassA)) = [0]
   \<and> status (pendingCol (fst demoPassA) ! 0) = PConfirmed
   \<and> creditsOf demoConfig 9 demoSelected (fst demoPassA, noSummary, []) = [0]
   \<and> confirmed (fst (snd demoPassB)) = [0]
   \<and> map_option balance (find (byTelegramId 1) (usersCol (fst demoPassB))) = Some 101
   \<and> creditsOf demoConfigDoc 8 demoSelected (demoRefStore, noSummary, []) = [0]
   \<and> invalidated (fst (snd demoPassADoc)) = [0]
   \<and> status (pendingCol (fst demoPassADoc) ! 0) = PInvalid
   \<and> creditsOf demoConfigDoc 9 demoSelected (fst demoPassADoc, noSummary, []) = [0]
   \<and> invalidated (fst (snd demoPassBDoc)) = [0]
   \<and> map_option balance (find (byTelegramId 1) (usersCol (fst demoPassBDoc))) = Some 101"
  by code_simp

section \<open>First referrer wins\<close>

text \<open>
  C7, as the code has it. No operation makes two documents of the pending collection
  share a \<open>referredId\<close>: when the ids are pairwise distinct before an operation they are
  so after it. \<open>/start\<close> by an identity that already has a document in \<open>pending\<close> (of
  any status) or in \<open>refs\<close> stores nothing and notifies no referrer. The guarantee is the
  handler's own check.
\<close>

theorem first_referrer_wins:
  "(distinct (map referredId (pendingCol s))
      \<longrightarrow> distinct (map referredId (pendingCol (fst (step cfg x s)))))
   \<and> (find (\<lambda>p. referredId p = sender) (pendingCol s) \<noteq> None
        \<or> find (\<lambda>r. refReferredId r = sender) (refsCol s) \<noteq> None
      \<longrightarrow> pendingCol (fst (startCmd sender payload code now s)) = pendingCol s
          \<and> refsCol (fst (startCmd sender payload code now s)) = refsCol s
          \<and> (snd (startCmd sender payload code now s) = [Reply MsgMainMenu]
              \<or> snd (startCmd sender payload code now s) = []))"
proof -
  have a: "distinct (map referredId (pendingCol s))
      \<longrightarrow> distinct (map referredId (pendingCol (fst (step cfg x s))))"
  proof
    assume d: "distinct (map referredId (pendingCol s))"
    from step_pending_cases [of cfg x s]
    consider (same) "pendingCol (fst (step cfg x s)) = pendingCol s"
      | (ins) d where "pendingCol (fst (step cfg x s)) = pendingCol s @ [d]"
          "find (\<lambda>p. referredId p = referredId d) (pendingCol s) = None"
      | (pass) force now where
          "pendingCol (fst (step cfg x s))
             = pendingCol (fst (confirmPendingReferrals cfg force now s))"
      by blast
    then show "distinct (map referredId (pendingCol (fst (step cfg x s))))"
    proof cases
      case same
      then show ?thesis using d by simp
    next
      case ins
      then show ?thesis using d by (auto simp: find_None_iff)
    next
      case pass
      obtain s' sm' outs' where r: "confirmPendingReferrals cfg force now s = (s', sm', outs')"
        by (metis prod_cases3)
      show ?thesis
        using pass_pending(3) [OF r] d by (simp add: pass r)
    qed
  qed
  have b: "find (\<lambda>p. referredId p = sender) (pendingCol s) \<noteq> None
        \<or> find (\<lambda>r. refReferredId r = sender) (refsCol s) \<noteq> None
      \<longrightarrow> pendingCol (fst (startCmd sender payload code now s)) = pendingCol s
          \<and> refsCol (fst (startCmd sender payload code now s)) = refsCol s
          \<and> (snd (startCmd sender payload code now s) = [Reply MsgMainMenu]
              \<or> snd (startCmd sender payload code now s) = [])"
  proof
    assume h: "find (\<lambda>p. referredId p = sender) (pendingCol s) \<noteq> None
        \<or> find (\<lambda>r. refReferredId r = sender) (refsCol s) \<noteq> None"
    show "pendingCol (fst (startCmd sender payload code now s)) = pendingCol s
          \<and> refsCol (fst (startCmd sender payload code now s)) = refsCol s
          \<and> (snd (startCmd sender payload code now s) = [Reply MsgMainMenu]
              \<or> snd (startCmd sender payload code now s) = [])"
    proof (cases "ensureUserProfile sender code s")
      case None
      then show ?thesis by (simp add: startCmd_def)
    next
      case (Some r)
      obtain s1 u where r: "r = (s1, u)"
        by (cases r)
      have u: "telegramId u = sender"
        using Some r by (auto simp: ensureUserProfile_def newUser_def find_tid_Some
              split: option.splits if_splits)
      show ?thesis
        using h Some r u ensure_frame [of sender code s s1 u]
        by (auto simp: startCmd_def split: option.splits)
    qed
  qed
  show ?thesis
    by (rule conjI [OF a b])
qed

theorem first_referrer_wins_witness:
  "distinct (map referredId (pendingCol demoRefStore))
   \<and> distinct (map referredId
        (pendingCol (fst (step demoConfig (OpStart 2 ''ref_a'' ''ref_x'' 9) demoRefStore))))
   \<and> find (\<lambda>p. referredId p = 2) (pendingCol demoRefStore) \<noteq> None
   \<and> pendingCol (fst (startCmd 2 ''ref_a'' ''ref_x'' 9 demoRefStore)) = pendingCol demoRefStore"
proof -
  have d: "distinct (map referredId (pendingCol demoRefStore))"
    by (simp add: demoRefStore_def)
  have f: "find (\<lambda>p. referredId p = 2) (pendingCol demoRefStore) \<noteq> None"
    by (simp add: demoRefStore_def demoPending_def)
  show ?thesis
    using first_referrer_wins [of demoRefStore demoConfig "OpStart 2 ''ref_a'' ''ref_x'' 9"
        2 "''ref_a''" "''ref_x''" 9] d f
    by blast
qed

text \<open>
  C7 as stated fails in its last part: \<open>connectDB\<close> declares no unique index on
  \<open>referredId\<close>; the one index on the pending collection is the non-unique one on
  \<open>createdAt\<close>.
\<close>

theorem referredId_unique_index_counterexample:
  "(''pending'', ''referredId'', True) \<notin> set connectDB_indexes
   \<and> (''pending'', ''referredId'', False) \<notin> set connectDB_indexes
   \<and> (''pending'', ''createdAt'', False) \<in> set connectDB_indexes"
  by (simp add: connectDB_indexes_def)

section \<open>Balances stay non-negative\<close>

lemma orZero_simps [simp]: "orZero None = 0" "orZero (Some v) = v"
  by (simp_all add: orZero_def)

lemma list_all_updateOne:
  assumes "list_all P xs" and "\<And>x. P x \<Longrightarrow> P (f x)"
  shows "list_all P (updateOne q f xs)"
  using assms by (induction xs) auto

lemma list_all_updateOne_found:
  assumes "list_all P xs" and "find q xs = Some u" and "P (f u)"
  shows "list_all P (updateOne q f xs)"
  using assms by (induction xs) (auto split: if_splits)

lemma list_all_updateById:
  assumes "list_all P xs" and "\<And>x. P x \<Longrightarrow> P (f x)"
  shows "list_all P (updateById i f xs)"
  using assms by (auto simp: updateById_def list_all_length nth_list_update)

lemma nonneg_users:
  assumes "nonneg s"
      and "list_all (\<lambda>u. 0 \<le> balance u \<and> 0 \<le> orZero (balanceLocked u)) us"
  shows "nonneg (s\<lparr>usersCol := us\<rparr>)"
  using assms by (simp add: nonneg_def)

lemma ensure_nonneg:
  assumes "nonneg s" and "ensureUserProfile t code s = Some (s1, u)"
  shows "nonneg s1" and "find (byTelegramId t) (usersCol s1) = Some u"
    and "0 \<le> balance u" and "0 \<le> orZero (balanceLocked u)" and "telegramId u = t"
proof -
  have f: "find (byTelegramId t) (usersCol s1) = Some u"
    using assms(2)
    by (auto simp: ensureUserProfile_def find_append_new byTelegramId_def newUser_def
          split: option.splits if_splits)
  show n: "nonneg s1"
    using assms
    by (auto simp: ensureUserProfile_def nonneg_def newUser_def
          split: option.splits if_splits)
  show "find (byTelegramId t) (usersCol s1) = Some u"
    by (rule f)
  have "u \<in> set (usersCol s1)"
    using f by (simp add: find_tid_Some)
  then show "0 \<le> balance u" and "0 \<le> orZero (balanceLocked u)"
    using n by (auto simp: nonneg_def list_all_iff)
  show "telegramId u = t"
    using f by (simp add: find_tid_Some)
qed

lemma nonneg_startWithdrawFlow:
  assumes "nonneg s" and "find (byTelegramId (telegramId u)) (usersCol s) = Some u"
      and "0 \<le> balance u"
  shows "nonneg (fst (startWithdrawFlow cfg now u s))"
proof -
  let ?f = "\<lambda>d. d\<lparr> awaitingWithdrawUPI := True, balanceLocked := Some (balance u),
                    lastWithdrawAt := Some now,
                    awaitingWithdrawUPIConfirm := truthy (primaryUPI u),
                    draftWithdrawUPI := (if truthy (primaryUPI u) then primaryUPI u else None),
                    balance := balance d - balance u \<rparr>"
  have "list_all (\<lambda>u. 0 \<le> balance u \<and> 0 \<le> orZero (balanceLocked u))
          (updateOne (byTelegramId (telegramId u)) ?f (usersCol s))"
    using assms by (intro list_all_updateOne_found [where u = u]) (simp_all add: nonneg_def)
  then have "nonneg (s\<lparr>usersCol := updateOne (byTelegramId (telegramId u)) ?f (usersCol s)\<rparr>)"
    using assms(1) by (rule nonneg_users [rotated])
  then show ?thesis
    using assms(1) by (simp add: startWithdrawFlow_def Let_def)
qed

lemma nonneg_startUpiSetup: "nonneg s \<Longrightarrow> nonneg (fst (startUpiSetup u s))"
  by (auto simp: startUpiSetup_def nonneg_def intro!: list_all_updateOne)

lemma nonneg_supportAction: "nonneg s \<Longrightarrow> nonneg (fst (supportAction sender s))"
  by (auto simp: supportAction_def nonneg_def intro!: list_all_updateOne)

lemma nonneg_textUpiSetup: "nonneg s \<Longrightarrow> nonneg (fst (textUpiSetup u txt s))"
  by (auto simp: textUpiSetup_def Let_def nonneg_def unsetUpiSetup_def intro!: list_all_updateOne)

lemma nonneg_textSupport: "nonneg s \<Longrightarrow> nonneg (fst (textSupport cfg u txt s))"
  by (auto simp: textSupport_def nonneg_def intro!: list_all_updateOne)

lemma nonneg_textWithdraw:
  assumes "nonneg s" and "0 \<le> orZero (balanceLocked u)"
  shows "nonneg (fst (textWithdraw cfg now u txt s))"
  using assms
  by (auto simp: textWithdraw_def Let_def nonneg_def unsetWithdrawDraft_def
        intro!: list_all_updateOne)


lemma nonneg_textHandler:
  assumes "nonneg s"
  shows "nonneg (fst (textHandler cfg sender raw code now s))"
proof (cases "ensureUserProfile sender code s")
  case None
  then show ?thesis using assms by (simp add: textHandler_def)
next
  case (Some r)
  obtain s1 u where r: "r = (s1, u)"
    by (cases r)
  note e = ensure_nonneg [OF assms Some [unfolded r]]
  show ?thesis
    using e(1) e(4)
    by (simp add: textHandler_def Some r Let_def nonneg_textUpiSetup nonneg_textWithdraw
          nonneg_textSupport)
qed

lemma nonneg_withdrawCmd:
  assumes "nonneg s"
  shows "nonneg (fst (withdrawCmd cfg sender code now s))"
proof (cases "ensureUserProfile sender code s")
  case None
  then show ?thesis using assms by (simp add: withdrawCmd_def)
next
  case (Some r)
  obtain s1 u where r: "r = (s1, u)"
    by (cases r)
  note e = ensure_nonneg [OF assms Some [unfolded r]]
  have "nonneg (fst (startWithdrawFlow cfg now u s1))"
    using e by (intro nonneg_startWithdrawFlow) simp_all
  then show ?thesis
    by (simp add: withdrawCmd_def Some r)
qed

lemma nonneg_setupiCmd:
  assumes "nonneg s"
  shows "nonneg (fst (setupiCmd sender code s))"
proof (cases "ensureUserProfile sender code s")
  case None
  then show ?thesis using assms by (simp add: setupiCmd_def)
next
  case (Some r)
  obtain s1 u where r: "r = (s1, u)"
    by (cases r)
  show ?thesis
    using ensure_nonneg(1) [OF assms Some [unfolded r]]
    by (simp add: setupiCmd_def Some r nonneg_startUpiSetup)
qed

lemma nonneg_profileCmd:
  assumes "nonneg s"
  shows "nonneg (fst (profileCmd sender code s))"
proof (cases "ensureUserProfile sender code s")
  case None
  then show ?thesis using assms by (simp add: profileCmd_def)
next
  case (Some r)
  obtain s1 u where r: "r = (s1, u)"
    by (cases r)
  show ?thesis
    using ensure_nonneg(1) [OF assms Some [unfolded r]]
    by (simp add: profileCmd_def Some r)
qed

lemma nonneg_startCmd:
  assumes "nonneg s"
  shows "nonneg (fst (startCmd sender payload code now s))"
proof (cases "ensureUserProfile sender code s")
  case None
  then show ?thesis using assms by (simp add: startCmd_def)
next
  case (Some r)
  obtain s1 u where r: "r = (s1, u)"
    by (cases r)
  show ?thesis
    using ensure_nonneg(1) [OF assms Some [unfolded r]]
    by (auto simp: startCmd_def Some r nonneg_def split: option.splits)
qed

lemma nonneg_pay:
  assumes "nonneg s"
  shows "nonneg (fst (pay cfg sender a now s))"
  using assms
  by (auto simp: pay_def nonneg_def split: idarg.splits option.splits
        intro!: list_all_updateOne list_all_updateById)

lemma nonneg_cancelwithdraw:
  assumes "nonneg s"
  shows "nonneg (fst (cancelwithdraw cfg sender a now s))"
proof -
  have amt: "0 \<le> amount w" if "findPendingWithdrawal i (withdrawalsCol s) = Some w" for i w
    using that assms
    by (auto simp: findPendingWithdrawal_def nonneg_def list_all_length split: if_splits)
  show ?thesis
    using assms amt
    by (auto simp: cancelwithdraw_def nonneg_def split: idarg.splits option.splits
          intro!: list_all_updateOne list_all_updateById)
qed

lemma nonneg_admin_credit:
  assumes "nonneg s" and "\<not> negativeCredit (OpAdminCredit sender args)"
  shows "nonneg (fst (admin_credit cfg sender args s))"
  using assms
  by (auto simp: admin_credit_def nonneg_def split: creditargs.splits jsnum.splits option.splits
        intro!: list_all_updateOne)

lemma nonneg_processPending:
  assumes "nonneg s" and "0 \<le> REFERRAL_REWARD cfg"
      and "processPending cfg now ip (s, sm, outs) = (s', sm', outs')"
  shows "nonneg s'"
proof -
  from processPending_users [OF assms(3)] assms(1,2)
  show ?thesis
    by (auto simp: nonneg_def intro!: list_all_updateOne)
qed

lemma nonneg_confirmLoop:
  assumes "nonneg s" and "0 \<le> REFERRAL_REWARD cfg"
      and "confirmLoop cfg now rest (s, sm, outs) = (s', sm', outs')"
  shows "nonneg s'"
  using assms
proof (induction rest arbitrary: s sm outs)
  case Nil
  then show ?case by simp
next
  case (Cons ip rest)
  obtain s1 sm1 outs1 where one: "processPending cfg now ip (s, sm, outs) = (s1, sm1, outs1)"
    by (metis prod_cases3)
  have "nonneg s1"
    using nonneg_processPending [OF Cons.prems(1,2) one] .
  then show ?case
    using Cons.IH [of s1 sm1 outs1] Cons.prems(2,3) by (simp add: one)
qed

lemma nonneg_confirmPendingReferrals:
  assumes "nonneg s" and "0 \<le> REFERRAL_REWARD cfg"
  shows "nonneg (fst (confirmPendingReferrals cfg force now s))"
proof -
  obtain s' sm' outs' where r: "confirmPendingReferrals cfg force now s = (s', sm', outs')"
    by (metis prod_cases3)
  have "nonneg s'"
    using r unfolding confirmPendingReferrals_def by (rule nonneg_confirmLoop [OF assms])
  then show ?thesis
    by (simp add: r)
qed

lemma nonneg_step:
  assumes "nonneg s" and "0 \<le> REFERRAL_REWARD cfg" and "\<not> negativeCredit x"
  shows "nonneg (fst (step cfg x s))"
  using assms
  by (cases x)
     (simp_all add: nonneg_startCmd nonneg_profileCmd nonneg_withdrawCmd nonneg_setupiCmd
        nonneg_supportAction nonneg_textHandler nonneg_pay nonneg_cancelwithdraw
        nonneg_admin_credit nonneg_confirmPendingReferrals fst_adminConfirmCmd
        fst_adminConfirmAction fst_sweep)

text \<open>
  C3, as the code has it. With operations run one after another, each to its end before
  the next starts, from a store in which no balance, locked balance or withdrawal amount
  is negative (the empty database is one), and with a referral reward that is not
  negative, every sequence of operations that holds no administrator credit of a negative
  amount leads to a store of the same kind: withdrawal drafting, user cancel, withdrawal
  confirmation, settle, administrator cancel, referral confirmation and credits of
  positive amounts keep every balance at or above zero.
\<close>

theorem balances_stay_nonnegative:
  assumes "nonneg s" and "0 \<le> REFERRAL_REWARD cfg"
      and "list_all (\<lambda>x. \<not> negativeCredit x) ops"
  shows "nonneg (runSequential cfg ops s) \<and> list_all (\<lambda>u. 0 \<le> balance u) (usersCol (runSequential cfg ops s))"
proof -
  have "nonneg (runSequential cfg ops s)"
    using assms
  proof (induction ops arbitrary: s)
    case Nil
    then show ?case by simp
  next
    case (Cons x ops)
    have "nonneg (fst (step cfg x s))"
      using Cons.prems by (intro nonneg_step) simp_all
    then show ?case
      using Cons.IH [of "fst (step cfg x s)"] Cons.prems by simp
  qed
  then show ?thesis
    by (simp add: nonneg_def list_all_iff)
qed

theorem balances_stay_nonnegative_witness:
  "nonneg demoStore \<and> 0 \<le> REFERRAL_REWARD demoConfig
   \<and> list_all (\<lambda>x. \<not> negativeCredit x)
        [OpWithdraw 1 ''ref_x'' 7, OpText 1 ''cancel'' ''ref_x'' 8,
         OpAdminCredit 9 (CreditArgs (Finite 1) (Finite 5) ''bonus'')]
   \<and> nonneg (runSequential demoConfig
        [OpWithdraw 1 ''ref_x'' 7, OpText 1 ''cancel'' ''ref_x'' 8,
         OpAdminCredit 9 (CreditArgs (Finite 1) (Finite 5) ''bonus'')] demoStore)"
proof -
  have h1: "nonneg demoStore"
    by (simp add: nonneg_def demoStore_def demoUser_def emptyStore_def newUser_def)
  have h2: "0 \<le> REFERRAL_REWARD demoConfig"
    by (simp add: demoConfig_def)
  have h3: "list_all (\<lambda>x. \<not> negativeCredit x)
        [OpWithdraw 1 ''ref_x'' 7, OpText 1 ''cancel'' ''ref_x'' 8,
         OpAdminCredit 9 (CreditArgs (Finite 1) (Finite 5) ''bonus'')]"
    by simp
  show ?thesis
    using balances_stay_nonnegative [OF h1 h2 h3] h1 h2 h3 by blast
qed

text \<open>
  C3 as stated fails, in three ways. \<open>/admin_credit\<close> applies a negative amount with
  no floor: on the account with balance 100, a credit of \<open>-150\<close> leaves the balance at
  \<open>-50\<close>. \<open>/withdraw\<close> decides on the profile it read and then decrements the stored
  balance by what it read, with no condition on the stored document: of two \<open>/withdraw\<close>
  updates of that account that both read the profile before either writes, each
  subtracts 100, and the balance is \<open>-100\<close> with 100 locked. And the reward is read from
  the environment with no check of its sign: with a reward of \<open>-1\<close> the confirmation of
  a referral takes the referrer's balance from 0 to \<open>-1\<close>.
\<close>

theorem balance_nonnegative_counterexample:
  "nonneg demoStore
   \<and> map_option balance (find (byTelegramId 1) (usersCol demoStore)) = Some 100
   \<and> map_option balance
        (find (byTelegramId 1)
           (usersCol (fst (step demoConfig
                             (OpAdminCredit 9 (CreditArgs (Finite 1) (Finite (- 150)) ''fix''))
                             demoStore))))
       = Some (- 50)
   \<and> map_option balance
        (find (byTelegramId 1)
           (usersCol (withdrawOverlapped demoConfig 1 ''ref_x'' 7 8 demoStore)))
       = Some (- 100)
   \<and> map_option balanceLocked
        (find (byTelegramId 1)
           (usersCol (withdrawOverlapped demoConfig 1 ''ref_x'' 7 8 demoStore)))
       = Some (Some 100)
   \<and> map_option balance
        (find (byTelegramId 1)
           (usersCol (runSequential demoConfigNegReward
                        [OpProfile 1 ''ref_a'', OpStart 2 ''ref_a'' ''ref_b'' 0] emptyStore)))
       = Some 0
   \<and> map_option balance
        (find (byTelegramId 1)
           (usersCol (runSequential demoConfigNegReward
                        [OpProfile 1 ''ref_a'', OpStart 2 ''ref_a'' ''ref_b'' 0,
                         OpAdminConfirm 9 True 8] emptyStore)))
       = Some (- 1)"
proof -
  have a: "nonneg demoStore"
    by (simp add: nonneg_def demoStore_def demoUser_def emptyStore_def newUser_def)
  have b: "map_option balance (find (byTelegramId 1) (usersCol demoStore)) = Some 100"
    by code_simp
  have c: "map_option balance
        (find (byTelegramId 1)
           (usersCol (fst (step demoConfig
                             (OpAdminCredit 9 (CreditArgs (Finite 1) (Finite (- 150)) ''fix''))
                             demoStore))))
       = Some (- 50)"
    by (simp add: demoStore_def demoUser_def emptyStore_def newUser_def
          admin_credit_def isAdmin_def demoConfig_def byTelegramId_def)
  have d: "map_option balance
        (find (byTelegramId 1)
           (usersCol (withdrawOverlapped demoConfig 1 ''ref_x'' 7 8 demoStore)))
       = Some (- 100)"
    by code_simp
  have e: "map_option balanceLocked
        (find (byTelegramId 1)
           (usersCol (withdrawOverlapped demoConfig 1 ''ref_x'' 7 8 demoStore)))
       = Some (Some 100)"
    by code_simp
  have f: "map_option balance
        (find (byTelegramId 1)
           (usersCol (runSequential demoConfigNegReward
                        [OpProfile 1 ''ref_a'', OpStart 2 ''ref_a'' ''ref_b'' 0] emptyStore)))
       = Some 0"
    by code_simp
  have g: "map_option balance
        (find (byTelegramId 1)
           (usersCol (runSequential demoConfigNegReward
                        [OpProfile 1 ''ref_a'', OpStart 2 ''ref_a'' ''ref_b'' 0,
                         OpAdminConfirm 9 True 8] emptyStore)))
       = Some (- 1)"
    by code_simp
  show ?thesis
    using a b c d e f g by simp
qed

section \<open>Locks and pending withdrawals\<close>

lemma find_updateOne_proj:
  assumes "\<And>x. p (f x) = p x" and "\<And>x. g (f x) = g x"
  shows "map_option g (find p (updateOne q f xs)) = map_option g (find p xs)"
  using assms by (induction xs) auto

lemma lockView_updateOne:
  assumes "usersCol s' = updateOne (byTelegramId t') f (usersCol s)"
      and "\<And>d. telegramId (f d) = telegramId d"
  shows "lockView s' t =
         (if t = t'
          then map_option (\<lambda>u. (balanceLocked (f u), awaitingWithdrawUPI (f u)))
                 (find (byTelegramId t) (usersCol s))
          else lockView s t)"
  using assms(2) by (simp add: lockView_def assms(1) find_updateOne_tid option.map_comp comp_def)

lemma lockView_updateOne_same:
  assumes "usersCol s' = updateOne q f (usersCol s)"
      and "\<And>d. telegramId (f d) = telegramId d"
      and "\<And>d. balanceLocked (f d) = balanceLocked d"
      and "\<And>d. awaitingWithdrawUPI (f d) = awaitingWithdrawUPI d"
  shows "lockView s' t = lockView s t"
  unfolding lockView_def assms(1)
  using find_updateOne_proj [of "byTelegramId t" f "\<lambda>u. (balanceLocked u, awaitingWithdrawUPI u)" q
      "usersCol s"] assms(2,3,4)
  by (simp add: byTelegramId_def)

lemma lockView_users: "usersCol s' = usersCol s \<Longrightarrow> lockView s' t = lockView s t"
  by (simp add: lockView_def)

lemma lockView_found:
  "find (byTelegramId t) (usersCol s) = Some u
     \<Longrightarrow> lockView s t = Some (balanceLocked u, awaitingWithdrawUPI u)"
  by (simp add: lockView_def)

lemma ledger_same:
  assumes "ledgerInv s" and "withdrawalsCol s' = withdrawalsCol s"
      and "\<And>t. lockView s' t = lockView s t"
  shows "ledgerInv s'"
  using assms unfolding ledgerInv_def isPendingAt_def by simp

lemma ledger_other_fields [simp]:
  "ledgerInv (s\<lparr>pendingCol := ps\<rparr>) = ledgerInv s"
  "ledgerInv (s\<lparr>refsCol := rs\<rparr>) = ledgerInv s"
  by (simp_all add: ledgerInv_def isPendingAt_def lockView_def)

lemma ledger_init: "ledgerInv emptyStore"
  by (simp add: ledgerInv_def isPendingAt_def lockView_def emptyStore_def)

lemma ledger_ensure:
  assumes "ledgerInv s" and "ensureUserProfile t code s = Some (s1, u)"
  shows "ledgerInv s1" and "find (byTelegramId t) (usersCol s1) = Some u" and "telegramId u = t"
proof -
  show f: "find (byTelegramId t) (usersCol s1) = Some u"
    using assms(2)
    by (auto simp: ensureUserProfile_def find_append_new byTelegramId_def newUser_def
          split: option.splits if_splits)
  show "telegramId u = t"
    using f by (simp add: find_tid_Some)
  show "ledgerInv s1"
  proof (cases "s1 = s")
    case True
    then show ?thesis using assms(1) by simp
  next
    case False
    then have n: "find (byTelegramId t) (usersCol s) = None"
      and s1: "s1 = s\<lparr>usersCol := usersCol s @ [newUser t code]\<rparr>"
      using assms(2) by (auto simp: ensureUserProfile_def split: option.splits if_splits)
    have v: "lockView s1 t' = (if t' = t then Some (None, False) else lockView s t')" for t'
      using n by (auto simp: s1 lockView_def find_append_new byTelegramId_def newUser_def
            split: option.splits)
    have vt: "lockView s t = None"
      using n by (simp add: lockView_def)
    have w: "withdrawalsCol s1 = withdrawalsCol s"
      by (simp add: s1)
    show ?thesis
      using assms(1) vt unfolding ledgerInv_def isPendingAt_def w v
      by (auto split: if_splits)
  qed
qed


lemma ledgerD1:
  assumes "ledgerInv s" and "isPendingAt s i"
  shows "0 < amount (withdrawalsCol s ! i)"
    and "lockView s (userId (withdrawalsCol s ! i))
           = Some (Some (amount (withdrawalsCol s ! i)), False)"
  using assms unfolding ledgerInv_def by blast+

lemma ledgerD2:
  assumes "ledgerInv s" and "isPendingAt s i" and "isPendingAt s j"
      and "userId (withdrawalsCol s ! i) = userId (withdrawalsCol s ! j)"
  shows "i = j"
  using assms unfolding ledgerInv_def by blast

lemma ledgerD3:
  assumes "ledgerInv s" and "lockView s t = Some (l, True)"
  shows "\<exists>a. l = Some a \<and> 0 < a"
  using assms unfolding ledgerInv_def by blast

lemma ledgerI:
  assumes "\<And>i. isPendingAt s i \<Longrightarrow>
             0 < amount (withdrawalsCol s ! i)
             \<and> lockView s (userId (withdrawalsCol s ! i))
                 = Some (Some (amount (withdrawalsCol s ! i)), False)"
      and "\<And>i j. isPendingAt s i \<Longrightarrow> isPendingAt s j \<Longrightarrow>
             userId (withdrawalsCol s ! i) = userId (withdrawalsCol s ! j) \<Longrightarrow> i = j"
      and "\<And>t l. lockView s t = Some (l, True) \<Longrightarrow> \<exists>a. l = Some a \<and> 0 < a"
  shows "ledgerInv s"
  unfolding ledgerInv_def using assms by blast

text \<open>The effect on the invariant of setting the lock state of one account.\<close>

lemma ledger_open_draft:
  assumes "ledgerInv s" and "withdrawalsCol s' = withdrawalsCol s"
      and "\<And>t'. lockView s' t' = (if t' = t then Some (Some a, True) else lockView s t')"
      and "0 < a"
      and "\<And>l b. lockView s t = Some (l, b) \<Longrightarrow> \<not> 0 < orZero l"
  shows "ledgerInv s'"
proof (rule ledgerI)
  have p: "isPendingAt s' i = isPendingAt s i" for i
    by (simp add: isPendingAt_def assms(2))
  have owner: "userId (withdrawalsCol s ! i) \<noteq> t" if "isPendingAt s i" for i
  proof
    assume e: "userId (withdrawalsCol s ! i) = t"
    have "0 < amount (withdrawalsCol s ! i)"
      and "lockView s t = Some (Some (amount (withdrawalsCol s ! i)), False)"
      using ledgerD1 [OF assms(1) that] e by simp_all
    then show False
      using assms(5) by fastforce
  qed
  show "0 < amount (withdrawalsCol s' ! i)
      \<and> lockView s' (userId (withdrawalsCol s' ! i))
          = Some (Some (amount (withdrawalsCol s' ! i)), False)" if "isPendingAt s' i" for i
  proof -
    have pi: "isPendingAt s i"
      using that p by simp
    show ?thesis
      using ledgerD1 [OF assms(1) pi] owner [OF pi] by (simp add: assms(2) assms(3))
  qed
  show "i = j" if "isPendingAt s' i" "isPendingAt s' j"
    "userId (withdrawalsCol s' ! i) = userId (withdrawalsCol s' ! j)" for i j
    using that ledgerD2 [OF assms(1), of i j] by (simp add: p assms(2))
  show "\<exists>a. l = Some a \<and> 0 < a" if "lockView s' t' = Some (l, True)" for t' l
  proof (cases "t' = t")
    case True
    then show ?thesis
      using that assms(4) by (auto simp: assms(3))
  next
    case False
    then show ?thesis
      using that ledgerD3 [OF assms(1), of t' l] by (simp add: assms(3))
  qed
qed

lemma ledger_close_draft:
  assumes "ledgerInv s" and "withdrawalsCol s' = withdrawalsCol s"
      and "\<And>t'. lockView s' t' = (if t' = t then Some (l', False) else lockView s t')"
      and "lockView s t = Some (l, True)"
  shows "ledgerInv s'"
proof (rule ledgerI)
  have p: "isPendingAt s' i = isPendingAt s i" for i
    by (simp add: isPendingAt_def assms(2))
  have owner: "userId (withdrawalsCol s ! i) \<noteq> t" if "isPendingAt s i" for i
  proof
    assume e: "userId (withdrawalsCol s ! i) = t"
    have "lockView s t = Some (Some (amount (withdrawalsCol s ! i)), False)"
      using ledgerD1(2) [OF assms(1) that] e by simp
    then show False
      using assms(4) by simp
  qed
  show "0 < amount (withdrawalsCol s' ! i)
      \<and> lockView s' (userId (withdrawalsCol s' ! i))
          = Some (Some (amount (withdrawalsCol s' ! i)), False)" if "isPendingAt s' i" for i
  proof -
    have pi: "isPendingAt s i"
      using that p by simp
    show ?thesis
      using ledgerD1 [OF assms(1) pi] owner [OF pi] by (simp add: assms(2) assms(3))
  qed
  show "i = j" if "isPendingAt s' i" "isPendingAt s' j"
    "userId (withdrawalsCol s' ! i) = userId (withdrawalsCol s' ! j)" for i j
    using that ledgerD2 [OF assms(1), of i j] by (simp add: p assms(2))
  show "\<exists>a. l'' = Some a \<and> 0 < a" if "lockView s' t' = Some (l'', True)" for t' l''
  proof (cases "t' = t")
    case True
    then show ?thesis
      using that by (simp add: assms(3))
  next
    case False
    then show ?thesis
      using that ledgerD3 [OF assms(1), of t' l''] by (simp add: assms(3))
  qed
qed

lemma ledger_file_withdrawal:
  assumes "ledgerInv s" and "withdrawalsCol s' = withdrawalsCol s @ [w]"
      and "wstatus w = WPending" and "userId w = t" and "amount w = orZero l"
      and "\<And>t'. lockView s' t' = (if t' = t then Some (l, False) else lockView s t')"
      and "lockView s t = Some (l, True)"
  shows "ledgerInv s'"
proof (rule ledgerI)
  let ?n = "length (withdrawalsCol s)"
  obtain a where a: "l = Some a" "0 < a"
    using ledgerD3 [OF assms(1) assms(7)] by blast
  have owner: "userId (withdrawalsCol s ! i) \<noteq> t" if "isPendingAt s i" for i
  proof
    assume e: "userId (withdrawalsCol s ! i) = t"
    have "lockView s t = Some (Some (amount (withdrawalsCol s ! i)), False)"
      using ledgerD1(2) [OF assms(1) that] e by simp
    then show False
      using assms(7) by simp
  qed
  have p: "isPendingAt s' i = (isPendingAt s i \<or> i = ?n)" for i
    using assms(3) by (auto simp: isPendingAt_def assms(2) nth_append)
  have old: "withdrawalsCol s' ! i = withdrawalsCol s ! i" if "isPendingAt s i" for i
    using that by (simp add: isPendingAt_def assms(2) nth_append)
  have new: "withdrawalsCol s' ! ?n = w"
    by (simp add: assms(2))
  show "0 < amount (withdrawalsCol s' ! i)
      \<and> lockView s' (userId (withdrawalsCol s' ! i))
          = Some (Some (amount (withdrawalsCol s' ! i)), False)" if "isPendingAt s' i" for i
  proof (cases "i = ?n")
    case True
    then show ?thesis
      using a assms(4,5) new by (simp add: assms(6))
  next
    case False
    then have pi: "isPendingAt s i"
      using that p by simp
    show ?thesis
      using ledgerD1 [OF assms(1) pi] owner [OF pi] old [OF pi] by (simp add: assms(6))
  qed
  show "i = j" if h: "isPendingAt s' i" "isPendingAt s' j"
    "userId (withdrawalsCol s' ! i) = userId (withdrawalsCol s' ! j)" for i j
  proof (cases "i = ?n")
    case True
    note i = True
    show ?thesis
    proof (cases "j = ?n")
      case True
      then show ?thesis using i by simp
    next
      case False
      then have pj: "isPendingAt s j"
        using h(2) p by simp
      have "userId (withdrawalsCol s ! j) = t"
        using h(3) old [OF pj] new assms(4) i by simp
      then show ?thesis
        using owner [OF pj] by simp
    qed
  next
    case False
    then have pi: "isPendingAt s i"
      using h(1) p by simp
    show ?thesis
    proof (cases "j = ?n")
      case True
      have "userId (withdrawalsCol s ! i) = t"
        using h(3) old [OF pi] new assms(4) True by simp
      then show ?thesis
        using owner [OF pi] by simp
    next
      case False
      then have pj: "isPendingAt s j"
        using h(2) p by simp
      have "userId (withdrawalsCol s ! i) = userId (withdrawalsCol s ! j)"
        using h(3) old [OF pi] old [OF pj] by simp
      then show ?thesis
        by (rule ledgerD2 [OF assms(1) pi pj])
    qed
  qed
  show "\<exists>a. l'' = Some a \<and> 0 < a" if "lockView s' t' = Some (l'', True)" for t' l''
  proof (cases "t' = t")
    case True
    then show ?thesis
      using that by (simp add: assms(6))
  next
    case False
    then show ?thesis
      using that ledgerD3 [OF assms(1), of t' l''] by (simp add: assms(6))
  qed
qed

lemma ledger_resolve_withdrawal:
  assumes "ledgerInv s" and "isPendingAt s i"
      and "withdrawalsCol s' = (withdrawalsCol s)[i := w']" and "wstatus w' \<noteq> WPending"
      and "\<And>t'. lockView s' t' =
             (if t' = userId (withdrawalsCol s ! i) then Some (None, False) else lockView s t')"
  shows "ledgerInv s'"
proof (rule ledgerI)
  let ?t = "userId (withdrawalsCol s ! i)"
  have len: "i < length (withdrawalsCol s)"
    using assms(2) by (simp add: isPendingAt_def)
  have p: "isPendingAt s' j = (isPendingAt s j \<and> j \<noteq> i)" for j
    using assms(4) len by (auto simp: isPendingAt_def assms(3) nth_list_update)
  have old: "withdrawalsCol s' ! j = withdrawalsCol s ! j" if "j \<noteq> i" for j
    using that by (simp add: assms(3))
  have owner: "userId (withdrawalsCol s ! j) \<noteq> ?t" if "isPendingAt s j" "j \<noteq> i" for j
    using ledgerD2 [OF assms(1) that(1) assms(2)] that(2) by blast
  show "0 < amount (withdrawalsCol s' ! j)
      \<and> lockView s' (userId (withdrawalsCol s' ! j))
          = Some (Some (amount (withdrawalsCol s' ! j)), False)" if "isPendingAt s' j" for j
  proof -
    have pj: "isPendingAt s j" "j \<noteq> i"
      using that p by simp_all
    show ?thesis
      using ledgerD1 [OF assms(1) pj(1)] owner [OF pj] old [OF pj(2)] by (simp add: assms(5))
  qed
  show "j = k" if h: "isPendingAt s' j" "isPendingAt s' k"
    "userId (withdrawalsCol s' ! j) = userId (withdrawalsCol s' ! k)" for j k
  proof -
    have pj: "isPendingAt s j" "j \<noteq> i" and pk: "isPendingAt s k" "k \<noteq> i"
      using h(1,2) p by simp_all
    have "userId (withdrawalsCol s ! j) = userId (withdrawalsCol s ! k)"
      using h(3) old [OF pj(2)] old [OF pk(2)] by simp
    then show ?thesis
      by (rule ledgerD2 [OF assms(1) pj(1) pk(1)])
  qed
  show "\<exists>a. l'' = Some a \<and> 0 < a" if "lockView s' t' = Some (l'', True)" for t' l''
  proof (cases "t' = ?t")
    case True
    then show ?thesis
      using that by (simp add: assms(5))
  next
    case False
    then show ?thesis
      using that ledgerD3 [OF assms(1), of t' l''] by (simp add: assms(5))
  qed
qed


text \<open>Every handler keeps the invariant.\<close>

lemma ledger_startWithdrawFlow:
  assumes "ledgerInv s" and "0 < MIN_WITHDRAWAL cfg"
      and "find (byTelegramId (telegramId u)) (usersCol s) = Some u"
  shows "ledgerInv (fst (startWithdrawFlow cfg now u s))"
proof (cases "(case balanceLocked u of None \<Rightarrow> False | Some l \<Rightarrow> 0 < l) \<or> balance u < MIN_WITHDRAWAL cfg")
  case True
  then show ?thesis
    using assms(1) by (auto simp: startWithdrawFlow_def)
next
  case False
  let ?f = "\<lambda>d. d\<lparr> awaitingWithdrawUPI := True, balanceLocked := Some (balance u),
                    lastWithdrawAt := Some now,
                    awaitingWithdrawUPIConfirm := truthy (primaryUPI u),
                    draftWithdrawUPI := (if truthy (primaryUPI u) then primaryUPI u else None),
                    balance := balance d - balance u \<rparr>"
  let ?s' = "s\<lparr>usersCol := updateOne (byTelegramId (telegramId u)) ?f (usersCol s)\<rparr>"
  have s': "fst (startWithdrawFlow cfg now u s) = ?s'"
    using False by (simp add: startWithdrawFlow_def Let_def)
  have v: "lockView ?s' t' =
             (if t' = telegramId u then Some (Some (balance u), True) else lockView s t')" for t'
    using lockView_updateOne [of ?s' "telegramId u" ?f s t'] assms(3) by simp
  have pos: "0 < balance u"
    using False assms(2) by simp
  have nolock: "\<not> 0 < orZero l" if "lockView s (telegramId u) = Some (l, b)" for l b
    using that False lockView_found [OF assms(3)] by (auto simp: orZero_def split: option.splits)
  have "ledgerInv ?s'"
    by (rule ledger_open_draft [OF assms(1) _ v pos nolock]) simp_all
  then show ?thesis
    by (simp add: s')
qed

lemma ledger_flag_update:
  assumes "ledgerInv s"
      and "\<And>d. telegramId (f d) = telegramId d"
      and "\<And>d. balanceLocked (f d) = balanceLocked d"
      and "\<And>d. awaitingWithdrawUPI (f d) = awaitingWithdrawUPI d"
  shows "ledgerInv (s\<lparr>usersCol := updateOne q f (usersCol s)\<rparr>)"
  by (rule ledger_same [OF assms(1)])
     (simp_all add: lockView_updateOne_same [of _ q f s] assms(2,3,4))

lemma ledger_startUpiSetup: "ledgerInv s \<Longrightarrow> ledgerInv (fst (startUpiSetup u s))"
  by (simp add: startUpiSetup_def ledger_flag_update)

lemma ledger_supportAction: "ledgerInv s \<Longrightarrow> ledgerInv (fst (supportAction sender s))"
  by (simp add: supportAction_def ledger_flag_update)

lemma ledger_textUpiSetup: "ledgerInv s \<Longrightarrow> ledgerInv (fst (textUpiSetup u txt s))"
  by (simp add: textUpiSetup_def Let_def unsetUpiSetup_def ledger_flag_update)

lemma ledger_textSupport: "ledgerInv s \<Longrightarrow> ledgerInv (fst (textSupport cfg u txt s))"
  by (simp add: textSupport_def ledger_flag_update)

lemma ledger_textWithdraw:
  assumes "ledgerInv s" and "find (byTelegramId (telegramId u)) (usersCol s) = Some u"
      and "awaitingWithdrawUPI u"
  shows "ledgerInv (fst (textWithdraw cfg now u txt s))"
proof -
  let ?t = "telegramId u"
  have open_now: "lockView s ?t = Some (balanceLocked u, True)"
    using lockView_found [OF assms(2)] assms(3) by simp
  consider (cancel) "toLowerCase txt = ''cancel''"
    | (refused) "toLowerCase txt = ''confirm''"
        "\<not> awaitingWithdrawUPIConfirm u \<or> \<not> truthy (draftWithdrawUPI u)"
    | (confirm) "toLowerCase txt = ''confirm''"
        "awaitingWithdrawUPIConfirm u" "truthy (draftWithdrawUPI u)"
    | (noted) "toLowerCase txt \<noteq> ''cancel''" "toLowerCase txt \<noteq> ''confirm''" "UPI_REGEX_test txt"
    | (invalid) "toLowerCase txt \<noteq> ''cancel''" "toLowerCase txt \<noteq> ''confirm''"
        "\<not> UPI_REGEX_test txt"
    by blast
  then show ?thesis
  proof cases
    case cancel
    let ?f = "\<lambda>d. (unsetWithdrawDraft d)\<lparr> balance := balance d + orZero (balanceLocked u),
                                          balanceLocked := None \<rparr>"
    let ?s' = "s\<lparr>usersCol := updateOne (byTelegramId ?t) ?f (usersCol s)\<rparr>"
    have s': "fst (textWithdraw cfg now u txt s) = ?s'"
      using cancel by (simp add: textWithdraw_def Let_def)
    have v: "lockView ?s' t' = (if t' = ?t then Some (None, False) else lockView s t')" for t'
      using lockView_updateOne [of ?s' ?t ?f s t'] assms(2)
      by (simp add: unsetWithdrawDraft_def)
    have "ledgerInv ?s'"
      by (rule ledger_close_draft [OF assms(1) _ v open_now]) simp_all
    then show ?thesis
      by (simp add: s')
  next
    case refused
    then show ?thesis
      using assms(1) by (auto simp: textWithdraw_def Let_def)
  next
    case confirm
    let ?w = "\<lparr> userId = ?t, upi = the (draftWithdrawUPI u), amount = orZero (balanceLocked u),
                 requestedAt = now, wstatus = WPending, paidAt = None, paidBy = None,
                 cancelledAt = None \<rparr>"
    let ?f = "\<lambda>d. (unsetWithdrawDraft d)\<lparr> primaryUPI := Some (the (draftWithdrawUPI u)),
                                          needsUpiSetup := False \<rparr>"
    let ?s' = "s\<lparr>withdrawalsCol := withdrawalsCol s @ [?w],
                usersCol := updateOne (byTelegramId ?t) ?f (usersCol s)\<rparr>"
    have s': "fst (textWithdraw cfg now u txt s) = ?s'"
      using confirm by (simp add: textWithdraw_def Let_def)
    have v: "lockView ?s' t' = (if t' = ?t then Some (balanceLocked u, False) else lockView s t')"
      for t'
      using lockView_updateOne [of ?s' ?t ?f s t'] assms(2)
      by (simp add: unsetWithdrawDraft_def)
    have "ledgerInv ?s'"
      by (rule ledger_file_withdrawal [OF assms(1) _ _ _ _ v open_now, of ?w]) simp_all
    then show ?thesis
      by (simp add: s')
  next
    case noted
    then show ?thesis
      using assms(1) by (simp add: textWithdraw_def Let_def ledger_flag_update)
  next
    case invalid
    then show ?thesis
      using assms(1) by (simp add: textWithdraw_def Let_def)
  qed
qed

lemma ledger_textHandler:
  assumes "ledgerInv s"
  shows "ledgerInv (fst (textHandler cfg sender raw code now s))"
proof (cases "ensureUserProfile sender code s")
  case None
  then show ?thesis using assms by (simp add: textHandler_def)
next
  case (Some r)
  obtain s1 u where r: "r = (s1, u)"
    by (cases r)
  note e = ledger_ensure [OF assms Some [unfolded r]]
  have f: "find (byTelegramId (telegramId u)) (usersCol s1) = Some u"
    using e(2,3) by simp
  show ?thesis
    using e(1) f
    by (simp add: textHandler_def Some r Let_def ledger_textUpiSetup ledger_textWithdraw
          ledger_textSupport)
qed

lemma ledger_withdrawCmd:
  assumes "ledgerInv s" and "0 < MIN_WITHDRAWAL cfg"
  shows "ledgerInv (fst (withdrawCmd cfg sender code now s))"
proof (cases "ensureUserProfile sender code s")
  case None
  then show ?thesis using assms by (simp add: withdrawCmd_def)
next
  case (Some r)
  obtain s1 u where r: "r = (s1, u)"
    by (cases r)
  note e = ledger_ensure [OF assms(1) Some [unfolded r]]
  have f: "find (byTelegramId (telegramId u)) (usersCol s1) = Some u"
    using e(2,3) by simp
  show ?thesis
    using ledger_startWithdrawFlow [OF e(1) assms(2) f] by (simp add: withdrawCmd_def Some r)
qed

lemma ledger_setupiCmd:
  assumes "ledgerInv s"
  shows "ledgerInv (fst (setupiCmd sender code s))"
proof (cases "ensureUserProfile sender code s")
  case None
  then show ?thesis using assms by (simp add: setupiCmd_def)
next
  case (Some r)
  obtain s1 u where r: "r = (s1, u)"
    by (cases r)
  show ?thesis
    using ledger_ensure(1) [OF assms Some [unfolded r]]
    by (simp add: setupiCmd_def Some r ledger_startUpiSetup)
qed

lemma ledger_profileCmd:
  assumes "ledgerInv s"
  shows "ledgerInv (fst (profileCmd sender code s))"
proof (cases "ensureUserProfile sender code s")
  case None
  then show ?thesis using assms by (simp add: profileCmd_def)
next
  case (Some r)
  obtain s1 u where r: "r = (s1, u)"
    by (cases r)
  show ?thesis
    using ledger_ensure(1) [OF assms Some [unfolded r]] by (simp add: profileCmd_def Some r)
qed

lemma ledger_startCmd:
  assumes "ledgerInv s"
  shows "ledgerInv (fst (startCmd sender payload code now s))"
proof (cases "ensureUserProfile sender code s")
  case None
  then show ?thesis using assms by (simp add: startCmd_def)
next
  case (Some r)
  obtain s1 u where r: "r = (s1, u)"
    by (cases r)
  show ?thesis
    using ledger_ensure(1) [OF assms Some [unfolded r]]
    by (auto simp: startCmd_def Some r split: option.splits)
qed

lemma findPendingWithdrawal_Some:
  "findPendingWithdrawal i (withdrawalsCol s) = Some w
     \<longleftrightarrow> isPendingAt s i \<and> w = withdrawalsCol s ! i"
  by (auto simp: findPendingWithdrawal_def isPendingAt_def)

lemma ledger_resolve:
  assumes "ledgerInv s" and "isPendingAt s i" and "wstatus (g (withdrawalsCol s ! i)) \<noteq> WPending"
      and "\<And>d. telegramId (f d) = telegramId d" and "\<And>d. balanceLocked (f d) = None"
      and "\<And>d. awaitingWithdrawUPI (f d) = awaitingWithdrawUPI d"
  shows "ledgerInv (s\<lparr>withdrawalsCol := updateById i g (withdrawalsCol s),
                      usersCol := updateOne (byTelegramId (userId (withdrawalsCol s ! i))) f
                                    (usersCol s)\<rparr>)"
proof -
  let ?t = "userId (withdrawalsCol s ! i)"
  let ?s' = "s\<lparr>withdrawalsCol := updateById i g (withdrawalsCol s),
               usersCol := updateOne (byTelegramId ?t) f (usersCol s)\<rparr>"
  have len: "i < length (withdrawalsCol s)"
    using assms(2) by (simp add: isPendingAt_def)
  obtain d where d: "find (byTelegramId ?t) (usersCol s) = Some d" "\<not> awaitingWithdrawUPI d"
    using ledgerD1(2) [OF assms(1,2)] by (auto simp: lockView_def)
  have v: "lockView ?s' t' = (if t' = ?t then Some (None, False) else lockView s t')" for t'
    using lockView_updateOne [of ?s' ?t f s t'] assms(4,5,6) d by simp
  have w: "withdrawalsCol ?s' = (withdrawalsCol s)[i := g (withdrawalsCol s ! i)]"
    using len by (simp add: updateById_def)
  show ?thesis
    by (rule ledger_resolve_withdrawal [OF assms(1,2) w assms(3) v])
qed

lemma ledger_pay:
  assumes "ledgerInv s"
  shows "ledgerInv (fst (pay cfg sender a now s))"
proof (cases "\<exists>i w. isAdmin cfg sender \<and> a = ObjId i
                 \<and> findPendingWithdrawal i (withdrawalsCol s) = Some w")
  case False
  then have "fst (pay cfg sender a now s) = s"
    by (auto simp: pay_def split: idarg.splits option.splits)
  then show ?thesis using assms by simp
next
  case True
  then obtain i w where h: "isAdmin cfg sender" "a = ObjId i"
    "findPendingWithdrawal i (withdrawalsCol s) = Some w"
    by blast
  have p: "isPendingAt s i" and w: "w = withdrawalsCol s ! i"
    using h(3) by (simp_all add: findPendingWithdrawal_Some)
  show ?thesis
    using ledger_resolve [OF assms p,
        of "\<lambda>d. d\<lparr> wstatus := WPaid, paidAt := Some now, paidBy := Some sender \<rparr>"
           "\<lambda>u. u\<lparr> balanceLocked := None \<rparr>"]
    by (simp add: pay_def h w)
qed

lemma ledger_cancelwithdraw:
  assumes "ledgerInv s"
  shows "ledgerInv (fst (cancelwithdraw cfg sender a now s))"
proof (cases "\<exists>i w. isAdmin cfg sender \<and> a = ObjId i
                 \<and> findPendingWithdrawal i (withdrawalsCol s) = Some w")
  case False
  then have "fst (cancelwithdraw cfg sender a now s) = s"
    by (auto simp: cancelwithdraw_def split: idarg.splits option.splits)
  then show ?thesis using assms by simp
next
  case True
  then obtain i w where h: "isAdmin cfg sender" "a = ObjId i"
    "findPendingWithdrawal i (withdrawalsCol s) = Some w"
    by blast
  have p: "isPendingAt s i" and w: "w = withdrawalsCol s ! i"
    using h(3) by (simp_all add: findPendingWithdrawal_Some)
  show ?thesis
    using ledger_resolve [OF assms p,
        of "\<lambda>d. d\<lparr> wstatus := WCancelled, cancelledAt := Some now \<rparr>"
           "\<lambda>u. u\<lparr> balance := balance u + amount (withdrawalsCol s ! i), balanceLocked := None \<rparr>"]
    by (simp add: cancelwithdraw_def h w)
qed

lemma ledger_admin_credit:
  assumes "ledgerInv s"
  shows "ledgerInv (fst (admin_credit cfg sender args s))"
  using assms
  by (auto simp: admin_credit_def ledger_flag_update
        split: creditargs.splits jsnum.splits option.splits)

lemma ledger_processPending:
  assumes "ledgerInv s" and "processPending cfg now ip (s, sm, outs) = (s', sm', outs')"
  shows "ledgerInv s'"
proof -
  note sh = processPending_users [OF assms(2)]
  have "lockView s' t = lockView s t" for t
    using sh(2)
  proof
    assume "usersCol s' = usersCol s"
    then show ?thesis
      by (intro lockView_users) simp
  next
    assume u: "usersCol s' = updateOne (byTelegramId (referrerId (snd ip)))
                 (\<lambda>u. u\<lparr> balance := balance u + REFERRAL_REWARD cfg,
                          confirmedReferrals := confirmedReferrals u + 1 \<rparr>) (usersCol s)"
    show ?thesis
      by (rule lockView_updateOne_same [OF u]) simp_all
  qed
  then show ?thesis
    by (rule ledger_same [OF assms(1) sh(1)])
qed

lemma ledger_confirmLoop:
  assumes "ledgerInv s" and "confirmLoop cfg now rest (s, sm, outs) = (s', sm', outs')"
  shows "ledgerInv s'"
  using assms
proof (induction rest arbitrary: s sm outs)
  case Nil
  then show ?case by simp
next
  case (Cons ip rest)
  obtain s1 sm1 outs1 where one: "processPending cfg now ip (s, sm, outs) = (s1, sm1, outs1)"
    by (metis prod_cases3)
  have "ledgerInv s1"
    using ledger_processPending [OF Cons.prems(1) one] .
  then show ?case
    using Cons.IH [of s1 sm1 outs1] Cons.prems(2) by (simp add: one)
qed

lemma ledger_confirmPendingReferrals:
  assumes "ledgerInv s"
  shows "ledgerInv (fst (confirmPendingReferrals cfg force now s))"
proof -
  obtain s' sm' outs' where r: "confirmPendingReferrals cfg force now s = (s', sm', outs')"
    by (metis prod_cases3)
  have "ledgerInv s'"
    using r unfolding confirmPendingReferrals_def by (rule ledger_confirmLoop [OF assms])
  then show ?thesis
    by (simp add: r)
qed

lemma ledger_step:
  assumes "ledgerInv s" and "0 < MIN_WITHDRAWAL cfg"
  shows "ledgerInv (fst (step cfg x s))"
  using assms
  by (cases x)
     (simp_all add: ledger_startCmd ledger_profileCmd ledger_withdrawCmd ledger_setupiCmd
        ledger_supportAction ledger_textHandler ledger_pay ledger_cancelwithdraw
        ledger_admin_credit ledger_confirmPendingReferrals fst_adminConfirmCmd
        fst_adminConfirmAction fst_sweep)

lemma reachable_ledger:
  assumes "reachableSequential cfg s" and "0 < MIN_WITHDRAWAL cfg"
  shows "ledgerInv s"
  using assms by (induction rule: reachableSequential.induct) (simp_all add: ledger_init ledger_step)

lemma reachable_run:
  assumes "reachableSequential cfg s"
  shows "reachableSequential cfg (runSequential cfg ops s)"
  using assms by (induction ops arbitrary: s) (simp_all add: reachable_step)

section \<open>Conservation\<close>

lemma find_updateOne_mono:
  fixes g :: "user \<Rightarrow> rat"
  assumes "\<And>d. telegramId (f d) = telegramId d"
      and "\<And>u. find q xs = Some u \<Longrightarrow> g u \<le> g (f u)"
  shows "(case find (byTelegramId t) xs of None \<Rightarrow> 0 | Some u \<Rightarrow> g u)
         \<le> (case find (byTelegramId t) (updateOne q f xs) of None \<Rightarrow> 0 | Some u \<Rightarrow> g u)"
  using assms by (induction xs) (auto simp: byTelegramId_def)

lemma total_updateOne_mono:
  assumes "usersCol s' = updateOne q f (usersCol s)"
      and "\<And>d. telegramId (f d) = telegramId d"
      and "\<And>u. find q (usersCol s) = Some u \<Longrightarrow> accountTotal u \<le> accountTotal (f u)"
  shows "total s t \<le> total s' t"
  unfolding total_def assms(1)
  by (rule find_updateOne_mono [where g = accountTotal and f = f and q = q, OF assms(2,3)])

lemma total_users: "usersCol s' = usersCol s \<Longrightarrow> total s' t = total s t"
  by (simp add: total_def)

lemma total_ensure:
  assumes "ensureUserProfile t code s = Some (s1, u)"
  shows "total s1 t' = total s t'"
  using assms
  by (auto simp: ensureUserProfile_def total_def find_append_new byTelegramId_def newUser_def
        accountTotal_def split: option.splits if_splits)

lemma total_startWithdrawFlow:
  assumes "find (byTelegramId (telegramId u)) (usersCol s) = Some u"
  shows "total s t \<le> total (fst (startWithdrawFlow cfg now u s)) t"
proof (cases "(case balanceLocked u of None \<Rightarrow> False | Some l \<Rightarrow> 0 < l) \<or> balance u < MIN_WITHDRAWAL cfg")
  case True
  then show ?thesis
    by (auto simp: startWithdrawFlow_def)
next
  case False
  let ?f = "\<lambda>d. d\<lparr> awaitingWithdrawUPI := True, balanceLocked := Some (balance u),
                    lastWithdrawAt := Some now,
                    awaitingWithdrawUPIConfirm := truthy (primaryUPI u),
                    draftWithdrawUPI := (if truthy (primaryUPI u) then primaryUPI u else None),
                    balance := balance d - balance u \<rparr>"
  let ?s' = "s\<lparr>usersCol := updateOne (byTelegramId (telegramId u)) ?f (usersCol s)\<rparr>"
  have s': "fst (startWithdrawFlow cfg now u s) = ?s'"
    using False by (simp add: startWithdrawFlow_def Let_def)
  have nolock: "orZero (balanceLocked u) \<le> 0"
    using False by (auto simp: orZero_def split: option.splits)
  have "total s t \<le> total ?s' t"
  proof (rule total_updateOne_mono [where q = "byTelegramId (telegramId u)" and f = ?f])
    show "usersCol ?s' = updateOne (byTelegramId (telegramId u)) ?f (usersCol s)"
      by simp
    show "telegramId (?f d) = telegramId d" for d
      by simp
    show "accountTotal v \<le> accountTotal (?f v)"
      if "find (byTelegramId (telegramId u)) (usersCol s) = Some v" for v
      using that assms nolock by (simp add: accountTotal_def)
  qed
  then show ?thesis
    by (simp add: s')
qed

lemma total_flag_update:
  assumes "usersCol s' = updateOne q f (usersCol s)"
      and "\<And>d. telegramId (f d) = telegramId d"
      and "\<And>d. accountTotal d \<le> accountTotal (f d)"
  shows "total s t \<le> total s' t"
  by (rule total_updateOne_mono [OF assms(1,2)]) (rule assms(3))

lemma total_flag_update':
  assumes "\<And>d. telegramId (f d) = telegramId d"
      and "\<And>d. accountTotal d \<le> accountTotal (f d)"
  shows "total s t \<le> total (s\<lparr>usersCol := updateOne q f (usersCol s)\<rparr>) t"
  by (rule total_flag_update [where f = f and q = q]) (simp_all add: assms)

lemma total_startUpiSetup: "total s t \<le> total (fst (startUpiSetup u s)) t"
  unfolding startUpiSetup_def fst_conv
  by (rule total_flag_update') (simp_all add: accountTotal_def)

lemma total_supportAction: "total s t \<le> total (fst (supportAction sender s)) t"
  unfolding supportAction_def fst_conv
  by (rule total_flag_update') (simp_all add: accountTotal_def)

lemma total_textSupport: "total s t \<le> total (fst (textSupport cfg u txt s)) t"
  unfolding textSupport_def fst_conv
  by (rule total_flag_update') (simp_all add: accountTotal_def)

lemma total_textUpiSetup: "total s t \<le> total (fst (textUpiSetup u txt s)) t"
proof -
  have a: "total s t \<le> total (s\<lparr>usersCol := updateOne q unsetUpiSetup (usersCol s)\<rparr>) t" for q
    by (rule total_flag_update') (simp_all add: accountTotal_def unsetUpiSetup_def)
  have b: "total s t \<le> total (s\<lparr>usersCol := updateOne q
                 (\<lambda>d. unsetUpiSetup (d\<lparr> primaryUPI := draftUpiSetup u, needsUpiSetup := False \<rparr>))
                 (usersCol s)\<rparr>) t" for q
    by (rule total_flag_update') (simp_all add: accountTotal_def unsetUpiSetup_def)
  have c: "total s t \<le> total (s\<lparr>usersCol := updateOne q (\<lambda>d. d\<lparr> draftUpiSetup := Some txt \<rparr>)
                 (usersCol s)\<rparr>) t" for q
    by (rule total_flag_update') (simp_all add: accountTotal_def)
  show ?thesis
    using a b c by (simp add: textUpiSetup_def Let_def)
qed

lemma total_textWithdraw:
  assumes "find (byTelegramId (telegramId u)) (usersCol s) = Some u"
  shows "total s t \<le> total (fst (textWithdraw cfg now u txt s)) t"
proof -
  let ?q = "byTelegramId (telegramId u)"
  let ?fc = "\<lambda>d. (unsetWithdrawDraft d)\<lparr> balance := balance d + orZero (balanceLocked u),
                                         balanceLocked := None \<rparr>"
  have a: "total s t \<le> total (s\<lparr>usersCol := updateOne ?q ?fc (usersCol s)\<rparr>) t"
  proof (rule total_updateOne_mono [where q = ?q and f = ?fc])
    show "accountTotal v \<le> accountTotal (?fc v)" if "find ?q (usersCol s) = Some v" for v
      using that assms by (simp add: accountTotal_def unsetWithdrawDraft_def)
  qed (simp_all add: unsetWithdrawDraft_def)
  have b: "total s t \<le> total (s\<lparr>withdrawalsCol := ws, usersCol := updateOne ?q
                  (\<lambda>d. (unsetWithdrawDraft d)\<lparr> primaryUPI := Some target,
                                              needsUpiSetup := False \<rparr>) (usersCol s)\<rparr>) t"
    for ws target
    by (rule total_flag_update [where q = ?q
          and f = "\<lambda>d. (unsetWithdrawDraft d)\<lparr> primaryUPI := Some target,
                                                needsUpiSetup := False \<rparr>"])
       (simp_all add: accountTotal_def unsetWithdrawDraft_def)
  have c: "total s t \<le> total (s\<lparr>usersCol := updateOne ?q
              (\<lambda>d. d\<lparr> draftWithdrawUPI := Some txt, awaitingWithdrawUPIConfirm := True \<rparr>)
              (usersCol s)\<rparr>) t"
    by (rule total_flag_update') (simp_all add: accountTotal_def)
  show ?thesis
    using a b c by (simp add: textWithdraw_def Let_def)
qed


lemma ensure_found:
  assumes "ensureUserProfile t code s = Some (s1, u)"
  shows "find (byTelegramId (telegramId u)) (usersCol s1) = Some u"
proof -
  have f: "find (byTelegramId t) (usersCol s1) = Some u"
    using assms
    by (auto simp: ensureUserProfile_def find_append_new byTelegramId_def newUser_def
          split: option.splits if_splits)
  then have "telegramId u = t"
    by (simp add: find_tid_Some)
  then show ?thesis
    using f by simp
qed

lemma total_textHandler: "total s t \<le> total (fst (textHandler cfg sender raw code now s)) t"
proof (cases "ensureUserProfile sender code s")
  case None
  then show ?thesis by (simp add: textHandler_def)
next
  case (Some r)
  obtain s1 u where r: "r = (s1, u)"
    by (cases r)
  have e: "total s1 t = total s t"
    using total_ensure [OF Some [unfolded r]] .
  have f: "find (byTelegramId (telegramId u)) (usersCol s1) = Some u"
    using ensure_found [OF Some [unfolded r]] .
  have "total s1 t \<le> total (fst (textHandler cfg sender raw code now s)) t"
    using total_textUpiSetup [of s1 t u "trim raw"]
      total_textWithdraw [OF f, of t cfg now "trim raw"]
      total_textSupport [of s1 t cfg u "trim raw"]
    by (simp add: textHandler_def Some r Let_def)
  then show ?thesis
    using e by simp
qed

lemma total_withdrawCmd: "total s t \<le> total (fst (withdrawCmd cfg sender code now s)) t"
proof (cases "ensureUserProfile sender code s")
  case None
  then show ?thesis by (simp add: withdrawCmd_def)
next
  case (Some r)
  obtain s1 u where r: "r = (s1, u)"
    by (cases r)
  show ?thesis
    using total_ensure [OF Some [unfolded r], of t]
      total_startWithdrawFlow [OF ensure_found [OF Some [unfolded r]], of t cfg now]
    by (simp add: withdrawCmd_def Some r)
qed

lemma total_setupiCmd: "total s t \<le> total (fst (setupiCmd sender code s)) t"
proof (cases "ensureUserProfile sender code s")
  case None
  then show ?thesis by (simp add: setupiCmd_def)
next
  case (Some r)
  obtain s1 u where r: "r = (s1, u)"
    by (cases r)
  show ?thesis
    using total_ensure [OF Some [unfolded r], of t] total_startUpiSetup [of s1 t u]
    by (simp add: setupiCmd_def Some r)
qed

lemma total_profileCmd: "total s t \<le> total (fst (profileCmd sender code s)) t"
proof (cases "ensureUserProfile sender code s")
  case None
  then show ?thesis by (simp add: profileCmd_def)
next
  case (Some r)
  obtain s1 u where r: "r = (s1, u)"
    by (cases r)
  show ?thesis
    using total_ensure [OF Some [unfolded r], of t] by (simp add: profileCmd_def Some r)
qed

lemma total_startCmd: "total s t \<le> total (fst (startCmd sender payload code now s)) t"
proof (cases "ensureUserProfile sender code s")
  case None
  then show ?thesis by (simp add: startCmd_def)
next
  case (Some r)
  obtain s1 u where r: "r = (s1, u)"
    by (cases r)
  have "usersCol (fst (startCmd sender payload code now s)) = usersCol s1"
    by (auto simp: startCmd_def Some r split: option.splits)
  then have "total (fst (startCmd sender payload code now s)) t = total s1 t"
    by (rule total_users)
  then show ?thesis
    using total_ensure [OF Some [unfolded r], of t] by simp
qed

lemma pay_unsettled:
  assumes "\<not> settles cfg (OpPay sender a now) s"
  shows "fst (pay cfg sender a now s) = s"
  using assms by (cases a) (auto simp: pay_def split: option.splits)

lemma total_cancelwithdraw:
  assumes "ledgerInv s"
  shows "total s t \<le> total (fst (cancelwithdraw cfg sender a now s)) t"
proof (cases "\<exists>i w. isAdmin cfg sender \<and> a = ObjId i
                 \<and> findPendingWithdrawal i (withdrawalsCol s) = Some w")
  case False
  then have "fst (cancelwithdraw cfg sender a now s) = s"
    by (auto simp: cancelwithdraw_def split: idarg.splits option.splits)
  then show ?thesis by simp
next
  case True
  then obtain i w where h: "isAdmin cfg sender" "a = ObjId i"
    "findPendingWithdrawal i (withdrawalsCol s) = Some w"
    by blast
  have p: "isPendingAt s i" and w: "w = withdrawalsCol s ! i"
    using h(3) by (simp_all add: findPendingWithdrawal_Some)
  let ?q = "byTelegramId (userId w)"
  let ?f = "\<lambda>u. u\<lparr> balance := balance u + amount w, balanceLocked := None \<rparr>"
  let ?s' = "s\<lparr>withdrawalsCol := updateById i
                 (\<lambda>d. d\<lparr> wstatus := WCancelled, cancelledAt := Some now \<rparr>) (withdrawalsCol s),
               usersCol := updateOne ?q ?f (usersCol s)\<rparr>"
  have s': "fst (cancelwithdraw cfg sender a now s) = ?s'"
    by (simp add: cancelwithdraw_def h)
  have "total s t \<le> total ?s' t"
  proof (rule total_updateOne_mono [where q = ?q and f = ?f])
    show "usersCol ?s' = updateOne ?q ?f (usersCol s)"
      by simp
    show "telegramId (?f d) = telegramId d" for d
      by simp
    show "accountTotal v \<le> accountTotal (?f v)" if "find ?q (usersCol s) = Some v" for v
    proof -
      have "lockView s (userId w) = Some (Some (amount w), False)"
        using ledgerD1(2) [OF assms p] w by simp
      then have "balanceLocked v = Some (amount w)"
        using that by (simp add: lockView_def)
      then show ?thesis
        by (simp add: accountTotal_def)
    qed
  qed
  then show ?thesis
    by (simp add: s')
qed

lemma total_admin_credit:
  assumes "\<not> negativeCredit (OpAdminCredit sender args)"
  shows "total s t \<le> total (fst (admin_credit cfg sender args s)) t"
proof -
  have a: "total s t \<le> total (s\<lparr>usersCol := updateOne q (\<lambda>u. u\<lparr> balance := balance u + a \<rparr>)
             (usersCol s)\<rparr>) t" if "0 \<le> a" for q a
    using that by (intro total_flag_update') (simp_all add: accountTotal_def)
  show ?thesis
    using assms a
    by (auto simp: admin_credit_def split: creditargs.splits jsnum.splits option.splits)
qed

lemma total_processPending:
  assumes "0 \<le> REFERRAL_REWARD cfg"
      and "processPending cfg now ip (s, sm, outs) = (s', sm', outs')"
  shows "total s t \<le> total s' t"
proof -
  from processPending_users(2) [OF assms(2)]
  show ?thesis
  proof
    assume "usersCol s' = usersCol s"
    then have "total s' t = total s t"
      by (rule total_users)
    then show ?thesis
      by simp
  next
    assume u: "usersCol s' = updateOne (byTelegramId (referrerId (snd ip)))
                 (\<lambda>u. u\<lparr> balance := balance u + REFERRAL_REWARD cfg,
                          confirmedReferrals := confirmedReferrals u + 1 \<rparr>) (usersCol s)"
    show ?thesis
      by (rule total_flag_update [OF u]) (simp_all add: accountTotal_def assms(1))
  qed
qed

lemma total_confirmLoop:
  assumes "0 \<le> REFERRAL_REWARD cfg"
      and "confirmLoop cfg now rest (s, sm, outs) = (s', sm', outs')"
  shows "total s t \<le> total s' t"
  using assms
proof (induction rest arbitrary: s sm outs)
  case Nil
  then show ?case by simp
next
  case (Cons ip rest)
  obtain s1 sm1 outs1 where one: "processPending cfg now ip (s, sm, outs) = (s1, sm1, outs1)"
    by (metis prod_cases3)
  have a: "total s t \<le> total s1 t"
    using total_processPending [OF Cons.prems(1) one] .
  have b: "total s1 t \<le> total s' t"
    using Cons.IH [of s1 sm1 outs1] Cons.prems by (simp add: one)
  show ?case
    using a b by (rule order_trans)
qed

lemma total_confirmPendingReferrals:
  assumes "0 \<le> REFERRAL_REWARD cfg"
  shows "total s t \<le> total (fst (confirmPendingReferrals cfg force now s)) t"
proof -
  obtain s' sm' outs' where r: "confirmPendingReferrals cfg force now s = (s', sm', outs')"
    by (metis prod_cases3)
  have "total s t \<le> total s' t"
    using r unfolding confirmPendingReferrals_def by (rule total_confirmLoop [OF assms])
  then show ?thesis
    by (simp add: r)
qed


text \<open>
  C5, as the code has it. In every store that operations run one after another, each to
  its end before the next starts, produce from the empty database, under a configuration
  with a positive minimum withdrawal and a reward that is not negative, no operation
  lowers balance plus locked balance of any account, unless the operation settles a
  withdrawal (\<open>/pay\<close> by an administrator on a pending withdrawal) or is an administrator
  credit of a negative amount.
\<close>

theorem conservation:
  assumes "reachableSequential cfg s" and "0 < MIN_WITHDRAWAL cfg" and "0 \<le> REFERRAL_REWARD cfg"
      and "\<not> settles cfg x s" and "\<not> negativeCredit x"
  shows "total s t \<le> total (fst (step cfg x s)) t"
proof -
  have inv: "ledgerInv s"
    using reachable_ledger [OF assms(1,2)] .
  show ?thesis
  proof (cases x)
    case (OpPay sender a now)
    then show ?thesis
      using assms(4) by (simp add: pay_unsettled)
  next
    case (OpCancelWithdraw sender a now)
    then show ?thesis
      using total_cancelwithdraw [OF inv] by simp
  next
    case (OpAdminCredit sender args)
    then show ?thesis
      using assms(5) by (simp add: total_admin_credit)
  qed (simp_all add: total_startCmd total_profileCmd total_withdrawCmd total_setupiCmd
         total_supportAction total_textHandler total_confirmPendingReferrals [OF assms(3)]
         fst_adminConfirmCmd fst_adminConfirmAction fst_sweep)
qed

theorem conservation_witness:
  "reachableSequential demoConfig (runSequential demoConfig demoOps emptyStore)
   \<and> 0 < MIN_WITHDRAWAL demoConfig \<and> 0 \<le> REFERRAL_REWARD demoConfig
   \<and> \<not> settles demoConfig (OpCancelWithdraw 9 (ObjId 0) 10) (runSequential demoConfig demoOps emptyStore)
   \<and> \<not> negativeCredit (OpCancelWithdraw 9 (ObjId 0) 10)
   \<and> total (runSequential demoConfig demoOps emptyStore) 1
       \<le> total (fst (step demoConfig (OpCancelWithdraw 9 (ObjId 0) 10)
                        (runSequential demoConfig demoOps emptyStore))) 1
   \<and> total (runSequential demoConfig demoOps emptyStore) 1 = 100
   \<and> map_option balance (find (byTelegramId 1)
         (usersCol (fst (step demoConfig (OpCancelWithdraw 9 (ObjId 0) 10)
                           (runSequential demoConfig demoOps emptyStore))))) = Some 100"
proof -
  have h1: "reachableSequential demoConfig (runSequential demoConfig demoOps emptyStore)"
    by (rule reachable_run [OF reachable_init])
  have h2: "0 < MIN_WITHDRAWAL demoConfig" and h3: "0 \<le> REFERRAL_REWARD demoConfig"
    by (simp_all add: demoConfig_def)
  have h4: "\<not> settles demoConfig (OpCancelWithdraw 9 (ObjId 0) 10)
              (runSequential demoConfig demoOps emptyStore)"
    by simp
  have h5: "\<not> negativeCredit (OpCancelWithdraw 9 (ObjId 0) 10)"
    by simp
  have e1: "total (runSequential demoConfig demoOps emptyStore) 1 = 100"
    by code_simp
  have e2: "map_option balance (find (byTelegramId 1)
         (usersCol (fst (step demoConfig (OpCancelWithdraw 9 (ObjId 0) 10)
                           (runSequential demoConfig demoOps emptyStore))))) = Some 100"
    by code_simp
  show ?thesis
    using conservation [OF h1 h2 h3 h4 h5, of 1] h1 h2 h3 h4 h5 e1 e2 by blast
qed

text \<open>
  C5 as stated fails, in three ways; none of the steps below settles a withdrawal or is
  an administrator credit of a negative amount. With a minimum withdrawal of 0 an
  account can file a withdrawal of amount 0, which stays pending while the account is
  credited 100 and drafts again; \<open>/cancelwithdraw\<close> of the first then refunds 0 and
  unsets the lock of 100, so the sum falls from 100 to 0. With a reward of \<open>-1\<close> the
  confirmation of a referral lowers the referrer's sum from 100 to 99. And of two
  \<open>/withdraw\<close> updates of one account that both read the profile before either writes,
  each subtracts the 100 it read while the lock is set to 100 twice: the sum falls from
  100 to 0.
\<close>

theorem conservation_counterexample:
  "total (runSequential demoConfigMin0 demoOpsMin0 emptyStore) 1 = 100
   \<and> \<not> settles demoConfigMin0 (OpCancelWithdraw 9 (ObjId 0) 12)
         (runSequential demoConfigMin0 demoOpsMin0 emptyStore)
   \<and> \<not> negativeCredit (OpCancelWithdraw 9 (ObjId 0) 12)
   \<and> total (fst (step demoConfigMin0 (OpCancelWithdraw 9 (ObjId 0) 12)
                   (runSequential demoConfigMin0 demoOpsMin0 emptyStore))) 1 = 0
   \<and> total (runSequential demoConfigNegReward demoOpsReferral emptyStore) 1 = 100
   \<and> \<not> settles demoConfigNegReward (OpAdminConfirm 9 True 8)
         (runSequential demoConfigNegReward demoOpsReferral emptyStore)
   \<and> \<not> negativeCredit (OpAdminConfirm 9 True 8)
   \<and> total (fst (step demoConfigNegReward (OpAdminConfirm 9 True 8)
                   (runSequential demoConfigNegReward demoOpsReferral emptyStore))) 1 = 99
   \<and> total demoStore 1 = 100
   \<and> total (withdrawOverlapped demoConfig 1 ''ref_x'' 7 8 demoStore) 1 = 0"
proof -
  have a: "total (runSequential demoConfigMin0 demoOpsMin0 emptyStore) 1 = 100"
    by code_simp
  have b: "total (fst (step demoConfigMin0 (OpCancelWithdraw 9 (ObjId 0) 12)
                   (runSequential demoConfigMin0 demoOpsMin0 emptyStore))) 1 = 0"
    by code_simp
  have c: "total (runSequential demoConfigNegReward demoOpsReferral emptyStore) 1 = 100"
    by code_simp
  have d: "total (fst (step demoConfigNegReward (OpAdminConfirm 9 True 8)
                   (runSequential demoConfigNegReward demoOpsReferral emptyStore))) 1 = 99"
    by code_simp
  have e: "total demoStore 1 = 100"
    by code_simp
  have f: "total (withdrawOverlapped demoConfig 1 ''ref_x'' 7 8 demoStore) 1 = 0"
    by code_simp
  show ?thesis
    using a b c d e f by simp
qed

end
